theory Spec2Isabelle
  imports Complex_Main "HOL-Library.AList"
begin

section \<open>Numbers\<close>

text \<open>
  The pipeline computes with Python floats. Finite floats are modelled as reals
  (rounding is not modelled); the two infinities, which the code produces on purpose
  (\<^verbatim>\<open>float('inf')\<close>), and NaN are separate values.
\<close>

datatype pyfloat = Fin real | PInf | NInf | NaN

text \<open>\<^verbatim>\<open>x < c\<close> for a finite constant \<open>c\<close>: false for \<open>+inf\<close> and NaN.\<close>

fun flt :: "pyfloat \<Rightarrow> real \<Rightarrow> bool" where
  "flt (Fin x) c = (x < c)"
| "flt PInf c = False"
| "flt NInf c = True"
| "flt NaN c = False"

text \<open>\<^verbatim>\<open>x / d\<close> for a finite, non-zero divisor \<open>d\<close>.\<close>

fun fdiv :: "pyfloat \<Rightarrow> real \<Rightarrow> pyfloat" where
  "fdiv (Fin x) d = Fin (x / d)"
| "fdiv PInf d = (if 0 < d then PInf else NInf)"
| "fdiv NInf d = (if 0 < d then NInf else PInf)"
| "fdiv NaN d = NaN"

section \<open>Severity classification (severity\_classification.py)\<close>

text \<open>
  The incident dictionary; \<^verbatim>\<open>incident.get(key, default)\<close> reads a field that may be
  absent, so every field is an option.
\<close>

record incident =
  inc_obstacle_class :: "string option"
  inc_zone :: "string option"
  inc_ttc :: "pyfloat option"
  inc_is_static :: "bool option"
  inc_distance :: "pyfloat option"
  inc_confidence :: "real option"
  inc_bbox :: "(int \<times> int \<times> int \<times> int) option"

text \<open>\<^verbatim>\<open>any(conditions)\<close> over a list of booleans.\<close>

definition py_any :: "bool list \<Rightarrow> bool" where
  "py_any conds = list_ex (\<lambda>b. b) conds"

definition is_critical :: "string \<Rightarrow> string \<Rightarrow> pyfloat \<Rightarrow> bool \<Rightarrow> bool" where
  "is_critical obstacle_class zone ttc is_static = py_any [
     obstacle_class = ''human'' \<and> zone = ''critical'' \<and> flt ttc 20,
     obstacle_class = ''vehicle'' \<and> zone = ''critical'' \<and> flt ttc 15,
     is_static \<and> zone = ''critical'' \<and> flt ttc 25,
     obstacle_class \<in> set [''human'', ''vehicle''] \<and> zone = ''critical'' \<and> flt ttc 10]"

definition is_high :: "string \<Rightarrow> string \<Rightarrow> pyfloat \<Rightarrow> bool \<Rightarrow> bool" where
  "is_high obstacle_class zone ttc is_static = py_any [
     obstacle_class = ''human'' \<and> zone = ''warning'' \<and> flt ttc 40,
     obstacle_class = ''animal'' \<and> zone = ''critical'',
     obstacle_class = ''debris'' \<and> zone = ''critical'' \<and> is_static,
     obstacle_class = ''vehicle'' \<and> zone = ''warning'' \<and> flt ttc 30,
     zone = ''critical'' \<and> flt ttc 40]"

definition is_medium :: "string \<Rightarrow> string \<Rightarrow> pyfloat \<Rightarrow> bool" where
  "is_medium obstacle_class zone ttc = py_any [
     obstacle_class = ''animal'' \<and> zone = ''warning'',
     obstacle_class = ''debris'' \<and> zone = ''critical'',
     obstacle_class = ''vehicle'' \<and> zone = ''warning'' \<and> flt ttc 60,
     obstacle_class = ''human'' \<and> flt ttc 60,
     zone = ''critical'' \<and> flt ttc 60]"

definition get_or :: "'a option \<Rightarrow> 'a \<Rightarrow> 'a" where
  "get_or v d = (case v of None \<Rightarrow> d | Some x \<Rightarrow> x)"

definition classify :: "incident \<Rightarrow> string" where
  "classify incident =
     (let obstacle_class = get_or (inc_obstacle_class incident) ''unknown'';
          zone = get_or (inc_zone incident) ''safe'';
          ttc = get_or (inc_ttc incident) PInf;
          is_static = get_or (inc_is_static incident) False
      in if is_critical obstacle_class zone ttc is_static then ''critical''
         else if is_high obstacle_class zone ttc is_static then ''high''
         else if is_medium obstacle_class zone ttc then ''medium''
         else ''low'')"

text \<open>An incident that carries the four fields the classifier reads.\<close>

definition mk_incident :: "string \<Rightarrow> string \<Rightarrow> pyfloat \<Rightarrow> bool \<Rightarrow> incident" where
  "mk_incident c z t s =
     \<lparr>inc_obstacle_class = Some c, inc_zone = Some z, inc_ttc = Some t,
      inc_is_static = Some s, inc_distance = None, inc_confidence = None, inc_bbox = None\<rparr>"

text \<open>The three predicate groups as the specification words them.\<close>

definition spec_critical :: "string \<Rightarrow> string \<Rightarrow> pyfloat \<Rightarrow> bool \<Rightarrow> bool" where
  "spec_critical c z t s \<longleftrightarrow>
     (c = ''human'' \<and> z = ''critical'' \<and> flt t 20) \<or>
     (c = ''vehicle'' \<and> z = ''critical'' \<and> flt t 15) \<or>
     (s \<and> z = ''critical'' \<and> flt t 25) \<or>
     ((c = ''human'' \<or> c = ''vehicle'') \<and> z = ''critical'' \<and> flt t 10)"

definition spec_high :: "string \<Rightarrow> string \<Rightarrow> pyfloat \<Rightarrow> bool \<Rightarrow> bool" where
  "spec_high c z t s \<longleftrightarrow>
     (c = ''human'' \<and> z = ''warning'' \<and> flt t 40) \<or>
     (c = ''animal'' \<and> z = ''critical'') \<or>
     (c = ''debris'' \<and> z = ''critical'' \<and> s) \<or>
     (c = ''vehicle'' \<and> z = ''warning'' \<and> flt t 30) \<or>
     (z = ''critical'' \<and> flt t 40)"

definition spec_medium :: "string \<Rightarrow> string \<Rightarrow> pyfloat \<Rightarrow> bool" where
  "spec_medium c z t \<longleftrightarrow>
     (c = ''animal'' \<and> z = ''warning'') \<or>
     (c = ''debris'' \<and> z = ''critical'') \<or>
     (c = ''vehicle'' \<and> z = ''warning'' \<and> flt t 60) \<or>
     (c = ''human'' \<and> flt t 60) \<or>
     (z = ''critical'' \<and> flt t 60)"

section \<open>Distance and time to collision (distance\_ttc.py)\<close>

text \<open>
  A detection as the detector produces it, and the dictionary that the confirmation stage
  returns for a confirmed track: the detection's fields plus four more. Per-frame
  processing later stores the zone under a fifth key.
\<close>

record detection =
  det_class :: string
  det_confidence :: real
  det_bbox :: "int \<times> int \<times> int \<times> int"
  det_class_id :: int

record obstacle = detection +
  ob_object_id :: nat
  ob_duration :: real
  ob_is_static :: bool
  ob_frame_count :: nat
  ob_zone :: "string option"

record distance_estimator =
  focal_length :: real
  known_heights :: "(string \<times> real) list"
  train_speed :: real
  ttc_critical :: real
  ttc_high :: real
  ttc_medium :: real

text \<open>The estimator built from an empty configuration (the defaults of the constructor).\<close>

definition default_estimator :: distance_estimator where
  "default_estimator =
     \<lparr>focal_length = 800,
      known_heights = [(''human'', 1.7), (''vehicle'', 1.5), (''animal'', 0.8), (''debris'', 0.3)],
      train_speed = 60, ttc_critical = 20, ttc_high = 40, ttc_medium = 60\<rparr>"

text \<open>\<^verbatim>\<open>self.known_heights.get(obstacle_class, 1.0)\<close>\<close>

definition known_height :: "distance_estimator \<Rightarrow> string \<Rightarrow> real" where
  "known_height est c = get_or (map_of (known_heights est) c) 1.0"

definition estimate_distance :: "distance_estimator \<Rightarrow> 'a detection_scheme \<Rightarrow> pyfloat" where
  "estimate_distance est obstacle =
     (let obstacle_class = det_class obstacle;
          bbox = det_bbox obstacle;
          known_height = known_height est obstacle_class
      in case bbox of (x1, y1, x2, y2) \<Rightarrow>
        let pixel_height = y2 - y1 in
        if pixel_height = 0 then PInf
        else let distance = (known_height * focal_length est) / real_of_int pixel_height
             in Fin (max 0 distance))"

definition calculate_ttc :: "distance_estimator \<Rightarrow> pyfloat \<Rightarrow> real option \<Rightarrow> pyfloat" where
  "calculate_ttc est distance speed_kmh_opt =
     (let speed_kmh = (case speed_kmh_opt of None \<Rightarrow> train_speed est | Some s \<Rightarrow> s) in
      if speed_kmh = 0 then PInf
      else let speed_ms = speed_kmh / 3.6 in fdiv distance speed_ms)"

definition get_ttc_level :: "distance_estimator \<Rightarrow> pyfloat \<Rightarrow> string" where
  "get_ttc_level est ttc =
     (if flt ttc (ttc_critical est) then ''critical''
      else if flt ttc (ttc_high est) then ''high''
      else if flt ttc (ttc_medium est) then ''medium''
      else ''low'')"

subsection \<open>Risk score\<close>

definition class_scores :: "(string \<times> real) list" where
  "class_scores = [(''human'', 40), (''vehicle'', 35), (''animal'', 30), (''debris'', 20)]"

definition zone_multipliers :: "(string \<times> real) list" where
  "zone_multipliers = [(''critical'', 2.0), (''warning'', 1.5), (''safe'', 0.5)]"

definition calculate_risk_score :: "string \<Rightarrow> string \<Rightarrow> pyfloat \<Rightarrow> bool \<Rightarrow> real" where
  "calculate_risk_score obstacle_class zone ttc is_static =
     (let score = 0;
          score = score + get_or (map_of class_scores obstacle_class) 25;
          score = score * get_or (map_of zone_multipliers zone) 1.0;
          score = (if flt ttc 10 then score + 30
                   else if flt ttc 20 then score + 20
                   else if flt ttc 40 then score + 10
                   else score);
          score = (if is_static then score + 10 else score)
      in min 100 score)"

definition get_risk_level :: "real \<Rightarrow> string" where
  "get_risk_level risk_score =
     (if risk_score \<ge> 75 then ''critical''
      else if risk_score \<ge> 50 then ''high''
      else if risk_score \<ge> 25 then ''medium''
      else ''low'')"

text \<open>The parts of the score as the specification words them.\<close>

definition spec_base :: "string \<Rightarrow> real" where
  "spec_base c = (if c = ''human'' then 40 else if c = ''vehicle'' then 35
                  else if c = ''animal'' then 30 else if c = ''debris'' then 20 else 25)"

definition spec_mult :: "string \<Rightarrow> real" where
  "spec_mult z = (if z = ''critical'' then 2 else if z = ''warning'' then 3 / 2
                  else if z = ''safe'' then 1 / 2 else 1)"

definition spec_ttc_bonus :: "pyfloat \<Rightarrow> real" where
  "spec_ttc_bonus t = (if flt t 10 then 30 else if flt t 20 then 20
                       else if flt t 40 then 10 else 0)"

definition spec_static_bonus :: "bool \<Rightarrow> real" where
  "spec_static_bonus s = (if s then 10 else 0)"

subsection \<open>Risk assessment\<close>

text \<open>
  \<^verbatim>\<open>round(x, 2)\<close>: to the nearest multiple of 1/100, ties to the even neighbour;
  infinities and NaN are returned as they are.
\<close>

definition round_half_even :: "real \<Rightarrow> int" where
  "round_half_even y =
     (let f = \<lfloor>y\<rfloor>; d = y - of_int f
      in if d < 1 / 2 then f else if 1 / 2 < d then f + 1
         else if even f then f else f + 1)"

fun py_round2 :: "pyfloat \<Rightarrow> pyfloat" where
  "py_round2 (Fin x) = Fin (of_int (round_half_even (x * 100)) / 100)"
| "py_round2 PInf = PInf"
| "py_round2 NInf = NInf"
| "py_round2 NaN = NaN"

record risk_assessment =
  ra_obstacle_class :: string
  ra_distance_m :: pyfloat
  ra_ttc_seconds :: pyfloat
  ra_ttc_level :: string
  ra_zone :: string
  ra_risk_score :: real
  ra_risk_level :: string
  ra_is_static :: bool

text \<open>
  \<^verbatim>\<open>assess_risk(obstacle, zone)\<close> on a confirmed obstacle, whose dictionary has the
  key \<^verbatim>\<open>is_static\<close>.
\<close>

definition assess_risk :: "distance_estimator \<Rightarrow> obstacle \<Rightarrow> string \<Rightarrow> risk_assessment" where
  "assess_risk est obstacle zone =
     (let distance = estimate_distance est obstacle;
          ttc = calculate_ttc est distance None;
          ttc_level = get_ttc_level est ttc;
          risk_score = calculate_risk_score (det_class obstacle) zone ttc (ob_is_static obstacle)
      in \<lparr>ra_obstacle_class = det_class obstacle,
          ra_distance_m = py_round2 distance,
          ra_ttc_seconds = py_round2 ttc,
          ra_ttc_level = ttc_level,
          ra_zone = zone,
          ra_risk_score = risk_score,
          ra_risk_level = get_risk_level risk_score,
          ra_is_static = ob_is_static obstacle\<rparr>)"

section \<open>Zone classification (track\_segmentation.py)\<close>

datatype py_error = TypeError | ZeroDivisionError | KeyError | ValueError

record track_segmentation =
  track_top_y :: real
  track_bottom_y :: real
  critical_zone_width :: real
  warning_zone_width :: real
  frame_width :: "int option"
  frame_height :: "int option"

definition default_track_segmentation :: track_segmentation where
  "default_track_segmentation =
     \<lparr>track_top_y = 0.4, track_bottom_y = 0.95,
      critical_zone_width = 0.25, warning_zone_width = 0.40,
      frame_width = None, frame_height = None\<rparr>"

text \<open>\<^verbatim>\<open>frame.shape[:2]\<close> is (height, width).\<close>

definition initialize_frame_dimensions :: "track_segmentation \<Rightarrow> int \<times> int \<Rightarrow> track_segmentation" where
  "initialize_frame_dimensions ts shape =
     (case shape of (h, w) \<Rightarrow> ts\<lparr>frame_height := Some h, frame_width := Some w\<rparr>)"

text \<open>
  Dividing by \<^verbatim>\<open>None\<close> raises TypeError, dividing a float by the integer 0 raises
  ZeroDivisionError; \<^verbatim>\<open>norm_x\<close> is computed before \<^verbatim>\<open>norm_y\<close>.
\<close>

definition py_truediv :: "real \<Rightarrow> int option \<Rightarrow> py_error + real" where
  "py_truediv a b =
     (case b of None \<Rightarrow> Inl TypeError
      | Some n \<Rightarrow> if n = 0 then Inl ZeroDivisionError else Inr (a / real_of_int n))"

definition classify_zone :: "track_segmentation \<Rightarrow> int \<times> int \<times> int \<times> int \<Rightarrow> py_error + string" where
  "classify_zone ts bbox =
     (case bbox of (x1, y1, x2, y2) \<Rightarrow>
        let center_x = real_of_int (x1 + x2) / 2;
            center_y = real_of_int (y1 + y2) / 2
        in case py_truediv center_x (frame_width ts) of Inl e \<Rightarrow> Inl e
           | Inr norm_x \<Rightarrow>
             (case py_truediv center_y (frame_height ts) of Inl e \<Rightarrow> Inl e
              | Inr norm_y \<Rightarrow>
                if norm_y < track_top_y ts \<or> norm_y > track_bottom_y ts then Inr ''safe''
                else let track_center = 0.5;
                         distance_from_center = \<bar>norm_x - track_center\<bar>
                     in if distance_from_center \<le> critical_zone_width ts / 2 then Inr ''critical''
                        else if distance_from_center \<le> warning_zone_width ts / 2 then Inr ''warning''
                        else Inr ''safe''))"

text \<open>The classification as the specification words it, on the normalised centre.\<close>

definition spec_zone :: "track_segmentation \<Rightarrow> real \<Rightarrow> real \<Rightarrow> string" where
  "spec_zone ts nx ny =
     (if ny < track_top_y ts \<or> track_bottom_y ts < ny then ''safe''
      else if \<bar>nx - 1 / 2\<bar> \<le> critical_zone_width ts / 2 then ''critical''
      else if \<bar>nx - 1 / 2\<bar> \<le> warning_zone_width ts / 2 then ''warning''
      else ''safe'')"

section \<open>Obstacle tracker (obstacle\_detection.py)\<close>

text \<open>
  A Python dictionary keeps its keys in insertion order, and the tracker iterates over its
  dictionaries, so they are association lists with distinct keys: \<open>AList.update\<close>
  overwrites in place or appends a new key at the end, \<open>AList.delete\<close> removes a key.
\<close>

record tracker =
  next_object_id :: nat
  objects :: "(nat \<times> detection) list"
  disappeared :: "(nat \<times> nat) list"
  max_disappeared :: int

definition new_tracker :: "int \<Rightarrow> tracker" where
  "new_tracker md = \<lparr>next_object_id = 0, objects = [], disappeared = [], max_disappeared = md\<rparr>"

definition keys :: "('k \<times> 'v) list \<Rightarrow> 'k list" where
  "keys d = map fst d"

text \<open>\<^verbatim>\<open>register\<close> returns the new state and the id it assigned.\<close>

definition register :: "tracker \<Rightarrow> detection \<Rightarrow> tracker \<times> nat" where
  "register t detection =
     (let t1 = t\<lparr>objects := AList.update (next_object_id t) detection (objects t)\<rparr>;
          t2 = t1\<lparr>disappeared := AList.update (next_object_id t1) 0 (disappeared t1)\<rparr>;
          t3 = t2\<lparr>next_object_id := next_object_id t2 + 1\<rparr>
      in (t3, next_object_id t3 - 1))"

text \<open>\<^verbatim>\<open>del d[k]\<close> raises KeyError when the key is absent.\<close>

definition deregister :: "tracker \<Rightarrow> nat \<Rightarrow> py_error + tracker" where
  "deregister t object_id =
     (if map_of (objects t) object_id = None then Inl KeyError
      else let t1 = t\<lparr>objects := AList.delete object_id (objects t)\<rparr>
           in if map_of (disappeared t1) object_id = None then Inl KeyError
              else Inr (t1\<lparr>disappeared := AList.delete object_id (disappeared t1)\<rparr>))"

text \<open>
  The body of both "mark as disappeared" loops: increment the counter, deregister when it
  exceeds \<^verbatim>\<open>max_disappeared\<close>.
\<close>

definition mark_disappeared :: "tracker \<Rightarrow> nat \<Rightarrow> py_error + tracker" where
  "mark_disappeared t object_id =
     (case map_of (disappeared t) object_id of
        None \<Rightarrow> Inl KeyError
      | Some d \<Rightarrow>
          let t1 = t\<lparr>disappeared := AList.update object_id (d + 1) (disappeared t)\<rparr>
          in if int (d + 1) > max_disappeared t1 then deregister t1 object_id else Inr t1)"

fun mark_all :: "nat list \<Rightarrow> tracker \<Rightarrow> py_error + tracker" where
  "mark_all [] t = Inr t"
| "mark_all (object_id # ids) t =
     (case mark_disappeared t object_id of Inl e \<Rightarrow> Inl e | Inr t' \<Rightarrow> mark_all ids t')"

definition get_center :: "int \<times> int \<times> int \<times> int \<Rightarrow> real \<times> real" where
  "get_center bbox = (case bbox of (x1, y1, x2, y2) \<Rightarrow>
     (real_of_int (x1 + x2) / 2, real_of_int (y1 + y2) / 2))"

text \<open>\<^verbatim>\<open>np.linalg.norm(np.array(a) - np.array(b))\<close> for two points.\<close>

definition linalg_norm_diff :: "real \<times> real \<Rightarrow> real \<times> real \<Rightarrow> real" where
  "linalg_norm_diff a b = sqrt ((fst a - fst b)\<^sup>2 + (snd a - snd b)\<^sup>2)"

text \<open>\<^verbatim>\<open>x < m\<close> for a finite \<open>x\<close> and a running minimum that starts at \<open>+inf\<close>.\<close>

fun rlt :: "real \<Rightarrow> pyfloat \<Rightarrow> bool" where
  "rlt x (Fin y) = (x < y)"
| "rlt x PInf = True"
| "rlt x NInf = False"
| "rlt x NaN = False"

text \<open>The inner loop over the still unmatched ids; the first of equally near tracks wins.\<close>

fun best_match_loop ::
  "tracker \<Rightarrow> real \<times> real \<Rightarrow> nat list \<Rightarrow> nat option \<times> pyfloat \<Rightarrow> py_error + nat option \<times> pyfloat" where
  "best_match_loop t det_center [] acc = Inr acc"
| "best_match_loop t det_center (object_id # ids) (best_match, min_distance) =
     (case map_of (objects t) object_id of
        None \<Rightarrow> Inl KeyError
      | Some ob \<Rightarrow>
          let obj_center = get_center (det_bbox ob);
              distance = linalg_norm_diff det_center obj_center
          in if rlt distance min_distance
             then best_match_loop t det_center ids (Some object_id, Fin distance)
             else best_match_loop t det_center ids (best_match, min_distance))"

text \<open>The loop over the detections; it carries the tracker and the list of unmatched ids.\<close>

fun match_detections ::
  "detection list \<Rightarrow> tracker \<Rightarrow> nat list \<Rightarrow> py_error + tracker \<times> nat list" where
  "match_detections [] t object_ids = Inr (t, object_ids)"
| "match_detections (detection # ds) t object_ids =
     (case best_match_loop t (get_center (det_bbox detection)) object_ids (None, PInf) of
        Inl e \<Rightarrow> Inl e
      | Inr (best_match, min_distance) \<Rightarrow>
          (case best_match of
             Some b \<Rightarrow>
               if flt min_distance 100
               then match_detections ds
                      (t\<lparr>objects := AList.update b detection (objects t),
                         disappeared := AList.update b 0 (disappeared t)\<rparr>)
                      (remove1 b object_ids)
               else match_detections ds (fst (register t detection)) object_ids
           | None \<Rightarrow> match_detections ds (fst (register t detection)) object_ids))"

fun register_all :: "detection list \<Rightarrow> tracker \<Rightarrow> tracker" where
  "register_all [] t = t"
| "register_all (detection # ds) t = register_all ds (fst (register t detection))"

text \<open>The new state of \<^verbatim>\<open>ObstacleTracker.update\<close>.\<close>

definition tracker_step :: "tracker \<Rightarrow> detection list \<Rightarrow> py_error + tracker" where
  "tracker_step t detections =
     (if length detections = 0 then mark_all (keys (disappeared t)) t
      else if length (objects t) = 0 then Inr (register_all detections t)
      else case match_detections detections t (keys (objects t)) of
             Inl e \<Rightarrow> Inl e
           | Inr (t1, object_ids) \<Rightarrow> mark_all object_ids t1)"

text \<open>
  \<^verbatim>\<open>ObstacleTracker.update\<close>: every path ends in \<^verbatim>\<open>return self.objects\<close>, so the
  result is the dictionary of the new state.
\<close>

definition tracker_update ::
  "tracker \<Rightarrow> detection list \<Rightarrow> py_error + (nat \<times> detection) list \<times> tracker" where
  "tracker_update t detections =
     (case tracker_step t detections of Inl e \<Rightarrow> Inl e | Inr t' \<Rightarrow> Inr (objects t', t'))"

text \<open>
  The ids that an update leaves unmatched: all of them when there is no detection, else
  what the matching loop leaves in \<^verbatim>\<open>object_ids\<close>.
\<close>

definition unmatched_ids :: "tracker \<Rightarrow> detection list \<Rightarrow> nat list" where
  "unmatched_ids t detections =
     (if length detections = 0 then keys (disappeared t)
      else if length (objects t) = 0 then []
      else case match_detections detections t (keys (objects t)) of
             Inl e \<Rightarrow> [] | Inr (t1, object_ids) \<Rightarrow> object_ids)"

text \<open>A sequence of updates, one list of detections per frame.\<close>

fun tracker_run :: "tracker \<Rightarrow> detection list list \<Rightarrow> py_error + tracker" where
  "tracker_run t [] = Inr t"
| "tracker_run t (ds # dss) =
     (case tracker_step t ds of Inl e \<Rightarrow> Inl e | Inr t' \<Rightarrow> tracker_run t' dss)"

text \<open>Track \<open>k\<close> is registered and matched by no detection in each frame of the sequence.\<close>

fun unmatched_run :: "nat \<Rightarrow> tracker \<Rightarrow> detection list list \<Rightarrow> bool" where
  "unmatched_run k t [] = True"
| "unmatched_run k t (ds # dss) =
     (k \<in> set (unmatched_ids t ds) \<and> k \<in> set (keys (objects t)) \<and>
      (case tracker_step t ds of Inl e \<Rightarrow> False | Inr t' \<Rightarrow> unmatched_run k t' dss))"

text \<open>
  What holds of the tracker's dictionaries in every state: the two have the same keys in
  the same order, no key twice, every key below \<^verbatim>\<open>next_object_id\<close>.
\<close>

definition tracker_inv :: "tracker \<Rightarrow> bool" where
  "tracker_inv t \<longleftrightarrow>
     keys (objects t) = keys (disappeared t) \<and> distinct (keys (objects t)) \<and>
     list_all (\<lambda>k. k < next_object_id t) (keys (objects t))"

section \<open>Multi-frame confirmation (multi\_frame\_confirmation.py)\<close>

record history_entry =
  he_detection :: detection
  he_frame :: nat
  he_timestamp :: real

record obstacle_history =
  h_detections :: "history_entry list"
  h_first_seen :: "real option"
  h_last_seen :: "real option"
  h_confirmed :: bool
  h_positions :: "(real \<times> real) list"
  h_is_static :: bool

record mfc =
  min_consecutive_frames :: int
  max_frame_gap :: int
  movement_threshold :: real
  obstacle_history :: "(nat \<times> obstacle_history) list"
  confirmed_obstacles :: "(nat \<times> detection) list"
  frame_count :: nat

definition new_mfc :: "int \<Rightarrow> int \<Rightarrow> real \<Rightarrow> mfc" where
  "new_mfc mcf mfg mt =
     \<lparr>min_consecutive_frames = mcf, max_frame_gap = mfg, movement_threshold = mt,
      obstacle_history = [], confirmed_obstacles = [], frame_count = 0\<rparr>"

text \<open>
  \<^verbatim>\<open>deque(maxlen=n).append(x)\<close>: the oldest entries leave when the deque is full (with
  \<open>n = 0\<close> it stays empty).
\<close>

definition deque_append :: "nat \<Rightarrow> 'a list \<Rightarrow> 'a \<Rightarrow> 'a list" where
  "deque_append maxlen xs x = (let ys = xs @ [x] in drop (length ys - maxlen) ys)"

text \<open>
  The history dictionary is a \<^verbatim>\<open>defaultdict\<close>: reading a missing id stores and returns
  the default entry, whose \<^verbatim>\<open>deque(maxlen=min_consecutive_frames + max_frame_gap)\<close>
  raises ValueError for a negative length.
\<close>

definition default_history :: obstacle_history where
  "default_history =
     \<lparr>h_detections = [], h_first_seen = None, h_last_seen = None, h_confirmed = False,
      h_positions = [], h_is_static = False\<rparr>"

definition history_lookup :: "mfc \<Rightarrow> nat \<Rightarrow> py_error + obstacle_history \<times> mfc" where
  "history_lookup m obj_id =
     (case map_of (obstacle_history m) obj_id of
        Some h \<Rightarrow> Inr (h, m)
      | None \<Rightarrow>
          if min_consecutive_frames m + max_frame_gap m < 0 then Inl ValueError
          else Inr (default_history,
                    m\<lparr>obstacle_history := AList.update obj_id default_history (obstacle_history m)\<rparr>))"

text \<open>The list slice \<^verbatim>\<open>xs[i:]\<close>; a negative \<open>i\<close> counts from the end, and \<^verbatim>\<open>xs[-0:]\<close> is all of \<open>xs\<close>.\<close>

definition py_slice_from :: "int \<Rightarrow> 'a list \<Rightarrow> 'a list" where
  "py_slice_from i xs =
     (if i < 0 then drop (length xs - nat (- i)) xs else drop (nat i) xs)"

text \<open>
  \<^verbatim>\<open>_should_confirm\<close>, on the history entry of the object (which the caller has just
  updated).
\<close>

definition should_confirm :: "mfc \<Rightarrow> obstacle_history \<Rightarrow> bool" where
  "should_confirm m history =
     (let detections = h_detections history in
      if int (length detections) < min_consecutive_frames m then False
      else let recent_frames = map he_frame (py_slice_from (- min_consecutive_frames m) detections);
               gaps = map (\<lambda>i. int (recent_frames ! (i + 1)) - int (recent_frames ! i) - 1)
                          [0 ..< length recent_frames - 1]
           in list_all (\<lambda>gap. gap \<le> max_frame_gap m) gaps)"

text \<open>\<^verbatim>\<open>_is_static\<close>; \<^verbatim>\<open>np.max\<close> of an empty array raises ValueError.\<close>

definition is_static :: "mfc \<Rightarrow> (real \<times> real) list \<Rightarrow> py_error + bool" where
  "is_static m positions =
     (if length positions < 2 then Inr True
      else let displacements = map (\<lambda>i. linalg_norm_diff (positions ! (i + 1)) (positions ! i))
                                   [0 ..< length positions - 1]
           in case displacements of
                [] \<Rightarrow> Inl ValueError
              | d # ds \<Rightarrow> Inr (fold max ds d < movement_threshold m))"

text \<open>
  What one iteration of the loop over the tracked objects does to the history entry of the
  object: append the detection, set the timestamps, append the position, recompute the
  static flag from three positions on.
\<close>

definition advance_history ::
  "mfc \<Rightarrow> real \<Rightarrow> obstacle_history \<Rightarrow> detection \<Rightarrow> py_error + obstacle_history" where
  "advance_history m current_time history detection =
     (let h1 = history\<lparr>h_detections :=
                 deque_append (nat (min_consecutive_frames m + max_frame_gap m)) (h_detections history)
                   \<lparr>he_detection = detection, he_frame = frame_count m,
                    he_timestamp = current_time\<rparr>\<rparr>;
          h2 = (if h_first_seen h1 = None then h1\<lparr>h_first_seen := Some current_time\<rparr> else h1);
          h3 = h2\<lparr>h_last_seen := Some current_time\<rparr>;
          center = get_center (det_bbox detection);
          h4 = h3\<lparr>h_positions := deque_append 10 (h_positions h3) center\<rparr>
      in if length (h_positions h4) \<ge> 3
         then (case is_static m (h_positions h4) of
                 Inl e \<Rightarrow> Inl e | Inr b \<Rightarrow> Inr (h4\<lparr>h_is_static := b\<rparr>))
         else Inr h4)"

text \<open>The dictionary appended to the list of confirmed obstacles.\<close>

definition confirmed_entry :: "real \<Rightarrow> nat \<Rightarrow> obstacle_history \<Rightarrow> detection \<Rightarrow> obstacle" where
  "confirmed_entry current_time obj_id history detection =
     \<lparr>det_class = det_class detection, det_confidence = det_confidence detection,
      det_bbox = det_bbox detection, det_class_id = det_class_id detection,
      ob_object_id = obj_id,
      ob_duration = current_time - get_or (h_first_seen history) current_time,
      ob_is_static = h_is_static history,
      ob_frame_count = length (h_detections history),
      ob_zone = None\<rparr>"

text \<open>One iteration of the loop over \<^verbatim>\<open>tracked_objects.items()\<close>.\<close>

definition process_tracked ::
  "real \<Rightarrow> mfc \<times> obstacle list \<Rightarrow> nat \<times> detection \<Rightarrow> py_error + mfc \<times> obstacle list" where
  "process_tracked current_time acc item =
     (case acc of (m, confirmed) \<Rightarrow> case item of (obj_id, detection) \<Rightarrow>
      case history_lookup m obj_id of
        Inl e \<Rightarrow> Inl e
      | Inr (history, m1) \<Rightarrow>
          (case advance_history m1 current_time history detection of
             Inl e \<Rightarrow> Inl e
           | Inr h \<Rightarrow>
               if should_confirm m1 h then
                 (if \<not> h_confirmed h
                  then Inr (m1\<lparr>obstacle_history :=
                                  AList.update obj_id (h\<lparr>h_confirmed := True\<rparr>) (obstacle_history m1),
                                confirmed_obstacles :=
                                  AList.update obj_id detection (confirmed_obstacles m1)\<rparr>,
                            confirmed @ [confirmed_entry current_time obj_id h detection])
                  else Inr (m1\<lparr>obstacle_history := AList.update obj_id h (obstacle_history m1)\<rparr>,
                            confirmed @ [confirmed_entry current_time obj_id h detection]))
               else Inr (m1\<lparr>obstacle_history := AList.update obj_id h (obstacle_history m1)\<rparr>,
                         confirmed)))"

fun process_all ::
  "real \<Rightarrow> (nat \<times> detection) list \<Rightarrow> mfc \<times> obstacle list \<Rightarrow> py_error + mfc \<times> obstacle list" where
  "process_all current_time [] acc = Inr acc"
| "process_all current_time (item # items) acc =
     (case process_tracked current_time acc item of
        Inl e \<Rightarrow> Inl e | Inr acc' \<Rightarrow> process_all current_time items acc')"

text \<open>
  \<^verbatim>\<open>_cleanup_old_obstacles\<close>. The test \<^verbatim>\<open>history['last_seen'] and ...\<close> is false for
  \<^verbatim>\<open>None\<close> and for the time stamp 0.0.
\<close>

definition is_old :: "real \<Rightarrow> real \<Rightarrow> obstacle_history \<Rightarrow> bool" where
  "is_old current_time timeout history =
     (case h_last_seen history of
        None \<Rightarrow> False
      | Some ls \<Rightarrow> ls \<noteq> 0 \<and> current_time - ls > timeout)"

definition remove_obstacle :: "nat \<Rightarrow> mfc \<Rightarrow> mfc" where
  "remove_obstacle obj_id m =
     m\<lparr>obstacle_history := AList.delete obj_id (obstacle_history m),
       confirmed_obstacles := AList.delete obj_id (confirmed_obstacles m)\<rparr>"

definition cleanup_old_obstacles :: "mfc \<Rightarrow> real \<Rightarrow> real \<Rightarrow> mfc" where
  "cleanup_old_obstacles m current_time timeout =
     (let to_remove = map fst (filter (\<lambda>(obj_id, history). is_old current_time timeout history)
                                      (obstacle_history m))
      in fold remove_obstacle to_remove m)"

text \<open>
  \<^verbatim>\<open>MultiFrameConfirmation.update\<close>; \<open>current_time\<close> is what \<^verbatim>\<open>time.time()\<close> returns
  in the call. The parameter \<^verbatim>\<open>detections\<close> is not read.
\<close>

definition mfc_update ::
  "mfc \<Rightarrow> real \<Rightarrow> detection list \<Rightarrow> (nat \<times> detection) list \<Rightarrow> py_error + obstacle list \<times> mfc" where
  "mfc_update m current_time detections tracked_objects =
     (let m0 = m\<lparr>frame_count := frame_count m + 1\<rparr> in
      case process_all current_time tracked_objects (m0, []) of
        Inl e \<Rightarrow> Inl e
      | Inr (m1, confirmed) \<Rightarrow> Inr (confirmed, cleanup_old_obstacles m1 current_time 10))"

text \<open>\<^verbatim>\<open>get_all_confirmed\<close>: the ids of the registry of confirmed obstacles that still have a history.\<close>

definition get_all_confirmed_ids :: "mfc \<Rightarrow> nat list" where
  "get_all_confirmed_ids m =
     filter (\<lambda>obj_id. map_of (obstacle_history m) obj_id \<noteq> None) (keys (confirmed_obstacles m))"

text \<open>A sequence of updates; each input is the clock reading and the tracked objects of a frame.\<close>

fun mfc_updates ::
  "mfc \<Rightarrow> (real \<times> (nat \<times> detection) list) list \<Rightarrow> py_error + obstacle list list \<times> mfc" where
  "mfc_updates m [] = Inr ([], m)"
| "mfc_updates m ((current_time, tracked_objects) # rest) =
     (case mfc_update m current_time (map snd tracked_objects) tracked_objects of
        Inl e \<Rightarrow> Inl e
      | Inr (confirmed, m') \<Rightarrow>
          (case mfc_updates m' rest of
             Inl e \<Rightarrow> Inl e
           | Inr (outs, m'') \<Rightarrow> Inr (confirmed # outs, m'')))"

text \<open>Whether an update's result lists the object.\<close>

definition reported :: "nat \<Rightarrow> obstacle list \<Rightarrow> bool" where
  "reported k confirmed = list_ex (\<lambda>ob. ob_object_id ob = k) confirmed"

text \<open>
  The confirmation rule as the specification words it: at least
  \<^verbatim>\<open>min_consecutive_frames\<close> entries, and between the frames of the most recent
  \<^verbatim>\<open>min_consecutive_frames\<close> entries no gap (difference minus 1) above \<^verbatim>\<open>max_frame_gap\<close>.
\<close>

definition take_last :: "nat \<Rightarrow> 'a list \<Rightarrow> 'a list" where
  "take_last n xs = drop (length xs - n) xs"

fun gaps_ok :: "int \<Rightarrow> nat list \<Rightarrow> bool" where
  "gaps_ok g (a # b # rest) = (int b - int a - 1 \<le> g \<and> gaps_ok g (b # rest))"
| "gaps_ok g rest = True"

definition spec_confirmed :: "mfc \<Rightarrow> obstacle_history \<Rightarrow> bool" where
  "spec_confirmed m h \<longleftrightarrow>
     min_consecutive_frames m \<le> int (length (h_detections h)) \<and>
     gaps_ok (max_frame_gap m)
       (map he_frame (take_last (nat (min_consecutive_frames m)) (h_detections h)))"

section \<open>False-alert filter (multi\_frame\_confirmation.py)\<close>

definition aspect_ratio :: "int \<Rightarrow> int \<Rightarrow> real" where
  "aspect_ratio width height =
     (if min width height > 0 then real_of_int (max width height) / real_of_int (min width height)
      else 0)"

definition bbox_area :: "int \<times> int \<times> int \<times> int \<Rightarrow> int" where
  "bbox_area bbox = (case bbox of (x1, y1, x2, y2) \<Rightarrow> (x2 - x1) * (y2 - y1))"

text \<open>The three tests of the loop body; each one skips the obstacle.\<close>

definition rejected :: "int \<Rightarrow> obstacle \<Rightarrow> bool" where
  "rejected min_size obstacle =
     (let bbox = det_bbox obstacle; area = bbox_area bbox in
      if area < min_size then True
      else case bbox of (x1, y1, x2, y2) \<Rightarrow>
        let width = x2 - x1; height = y2 - y1 in
        if aspect_ratio width height > 10 then True
        else if det_class obstacle = ''debris'' \<and> det_confidence obstacle < 0.6 then True
        else False)"

text \<open>\<^verbatim>\<open>FalseAlertFilter.filter\<close>, with the counter of suppressed obstacles.\<close>

fun filter_alerts :: "int \<Rightarrow> obstacle list \<Rightarrow> nat \<Rightarrow> obstacle list \<times> nat" where
  "filter_alerts min_size [] suppressed_count = ([], suppressed_count)"
| "filter_alerts min_size (obstacle # obstacles) suppressed_count =
     (if rejected min_size obstacle then filter_alerts min_size obstacles (suppressed_count + 1)
      else case filter_alerts min_size obstacles suppressed_count of
             (filtered, n) \<Rightarrow> (obstacle # filtered, n))"

section \<open>Incident reports and per-frame processing (severity\_classification.py, main.py)\<close>

definition get_severity_priority :: "string \<Rightarrow> int" where
  "get_severity_priority severity =
     get_or (map_of [(''critical'', 4), (''high'', 3), (''medium'', 2), (''low'', 1)] severity) 0"

definition get_recommended_action :: "string \<Rightarrow> string" where
  "get_recommended_action severity =
     get_or (map_of
       [(''critical'', ''IMMEDIATE ACTION REQUIRED: Alert driver, activate emergency braking if available, notify control room''),
        (''high'', ''URGENT: Alert driver, reduce speed, notify control room and nearest station''),
        (''medium'', ''CAUTION: Monitor situation, notify control room, prepare for potential action''),
        (''low'', ''ADVISORY: Log incident, continue monitoring'')] severity)
       ''Monitor situation''"

text \<open>
  The report of \<^verbatim>\<open>generate_report\<close> without its time-derived entries (the incident id and
  the time stamp) and without the explanation text.
\<close>

record report =
  rep_severity :: string
  rep_severity_priority :: int
  rep_type :: string
  rep_confidence :: real
  rep_is_static :: bool
  rep_duration_seconds :: real
  rep_zone :: string
  rep_bbox :: "(int \<times> int \<times> int \<times> int) option"
  rep_distance_meters :: "pyfloat option"
  rep_ttc_seconds :: "pyfloat option"
  rep_recommended_action :: string

definition generate_report :: "incident \<Rightarrow> report" where
  "generate_report incident =
     (let severity = classify incident in
      \<lparr>rep_severity = severity,
       rep_severity_priority = get_severity_priority severity,
       rep_type = get_or (inc_obstacle_class incident) ''unknown'',
       rep_confidence = get_or (inc_confidence incident) 0.0,
       rep_is_static = get_or (inc_is_static incident) False,
       rep_duration_seconds = 0,
       rep_zone = get_or (inc_zone incident) ''unknown'',
       rep_bbox = inc_bbox incident,
       rep_distance_meters = inc_distance incident,
       rep_ttc_seconds = inc_ttc incident,
       rep_recommended_action = get_recommended_action severity\<rparr>)"

text \<open>Step 5 of \<^verbatim>\<open>process_frame\<close>: the zone is stored in the obstacle's dictionary.\<close>

fun classify_zones :: "track_segmentation \<Rightarrow> obstacle list \<Rightarrow> py_error + obstacle list" where
  "classify_zones ts [] = Inr []"
| "classify_zones ts (obstacle # obstacles) =
     (case classify_zone ts (det_bbox obstacle) of
        Inl e \<Rightarrow> Inl e
      | Inr zone \<Rightarrow>
          (case classify_zones ts obstacles of
             Inl e \<Rightarrow> Inl e
           | Inr rest \<Rightarrow> Inr (obstacle\<lparr>ob_zone := Some zone\<rparr> # rest)))"

text \<open>The incident data that step 6 builds for an obstacle.\<close>

definition make_incident :: "distance_estimator \<Rightarrow> obstacle \<Rightarrow> string \<Rightarrow> incident" where
  "make_incident est obstacle zone =
     (let risk = assess_risk est obstacle zone in
      \<lparr>inc_obstacle_class = Some (det_class obstacle),
       inc_zone = Some zone,
       inc_ttc = Some (ra_ttc_seconds risk),
       inc_is_static = Some (ob_is_static obstacle),
       inc_distance = Some (ra_distance_m risk),
       inc_confidence = Some (det_confidence obstacle),
       inc_bbox = Some (det_bbox obstacle)\<rparr>)"

text \<open>What the frame hands to the external collaborators, in the order of the calls.\<close>

datatype event = SendAlert report | LogIncident report

text \<open>
  Step 6 of \<^verbatim>\<open>process_frame\<close>; it carries the list of incidents and the calls made so
  far. Reading \<^verbatim>\<open>obstacle['zone']\<close> raises KeyError for a dictionary without the key.
\<close>

fun assess_obstacles ::
  "distance_estimator \<Rightarrow> obstacle list \<Rightarrow> report list \<times> event list \<Rightarrow>
   py_error + report list \<times> event list" where
  "assess_obstacles est [] acc = Inr acc"
| "assess_obstacles est (obstacle # obstacles) (incidents, events) =
     (case ob_zone obstacle of
        None \<Rightarrow> Inl KeyError
      | Some zone \<Rightarrow>
          let incident = make_incident est obstacle zone;
              severity = classify incident
          in if severity \<in> set [''critical'', ''high'']
             then let report = generate_report incident
                  in assess_obstacles est obstacles
                       (incidents @ [report], events @ [SendAlert report, LogIncident report])
             else assess_obstacles est obstacles (incidents, events))"

record system =
  sys_track_segmentation :: track_segmentation
  sys_tracker :: tracker
  sys_mfc :: mfc
  sys_suppressed_count :: nat
  sys_estimator :: distance_estimator
  sys_frames_processed :: nat
  sys_detections_count :: nat
  sys_confirmed_obstacles :: nat
  sys_alerts_sent :: nat

text \<open>The system as \<^verbatim>\<open>RailTrackSystem.__init__\<close> builds it from an empty configuration.\<close>

definition new_system :: system where
  "new_system =
     \<lparr>sys_track_segmentation = default_track_segmentation,
      sys_tracker = new_tracker 5,
      sys_mfc = new_mfc 5 3 50,
      sys_suppressed_count = 0,
      sys_estimator = default_estimator,
      sys_frames_processed = 0, sys_detections_count = 0,
      sys_confirmed_obstacles = 0, sys_alerts_sent = 0\<rparr>"

record frame_result =
  fr_detections :: "detection list"
  fr_filtered_obstacles :: "obstacle list"
  fr_incidents :: "report list"
  fr_events :: "event list"

text \<open>
  \<^verbatim>\<open>process_frame\<close>. The detector is external: its answer for the frame is the argument
  \<open>detections\<close>; \<open>shape\<close> is the frame's (height, width) and \<open>current_time\<close> the clock
  reading. The result's list of confirmed obstacles is not modelled.
\<close>

definition process_frame ::
  "system \<Rightarrow> int \<times> int \<Rightarrow> detection list \<Rightarrow> real \<Rightarrow> py_error + frame_result \<times> system" where
  "process_frame sys shape detections current_time =
     (let ts = (if frame_width (sys_track_segmentation sys) = None
                then initialize_frame_dimensions (sys_track_segmentation sys) shape
                else sys_track_segmentation sys)
      in case tracker_update (sys_tracker sys) detections of
           Inl e \<Rightarrow> Inl e
         | Inr (tracked_objects, tracker') \<Rightarrow>
      case mfc_update (sys_mfc sys) current_time detections tracked_objects of
           Inl e \<Rightarrow> Inl e
         | Inr (confirmed, mfc') \<Rightarrow>
      case filter_alerts 1000 confirmed (sys_suppressed_count sys) of
           (filtered_obstacles, suppressed') \<Rightarrow>
      case classify_zones ts filtered_obstacles of
           Inl e \<Rightarrow> Inl e
         | Inr obstacles_with_zones \<Rightarrow>
      case assess_obstacles (sys_estimator sys) obstacles_with_zones ([], []) of
           Inl e \<Rightarrow> Inl e
         | Inr (incidents, events) \<Rightarrow>
             Inr (\<lparr>fr_detections = detections,
                   fr_filtered_obstacles = obstacles_with_zones,
                   fr_incidents = incidents,
                   fr_events = events\<rparr>,
                  sys\<lparr>sys_track_segmentation := ts,
                      sys_tracker := tracker',
                      sys_mfc := mfc',
                      sys_suppressed_count := suppressed',
                      sys_frames_processed := sys_frames_processed sys + 1,
                      sys_detections_count := sys_detections_count sys + length detections,
                      sys_confirmed_obstacles := sys_confirmed_obstacles sys + length confirmed,
                      sys_alerts_sent := sys_alerts_sent sys + length incidents\<rparr>))"

text \<open>A sequence of frames; each input is the frame shape, the detections and the clock reading.\<close>

fun process_frames ::
  "system \<Rightarrow> ((int \<times> int) \<times> detection list \<times> real) list \<Rightarrow> py_error + frame_result list \<times> system" where
  "process_frames sys [] = Inr ([], sys)"
| "process_frames sys ((shape, detections, current_time) # rest) =
     (case process_frame sys shape detections current_time of
        Inl e \<Rightarrow> Inl e
      | Inr (res, sys') \<Rightarrow>
          (case process_frames sys' rest of
             Inl e \<Rightarrow> Inl e
           | Inr (ress, sys'') \<Rightarrow> Inr (res # ress, sys'')))"

text \<open>The severity that step 6 computes for an obstacle, and the report it would generate.\<close>

definition severity_of :: "distance_estimator \<Rightarrow> obstacle \<Rightarrow> string" where
  "severity_of est obstacle =
     classify (make_incident est obstacle (get_or (ob_zone obstacle) ''safe''))"

definition report_of :: "distance_estimator \<Rightarrow> obstacle \<Rightarrow> report" where
  "report_of est obstacle =
     generate_report (make_incident est obstacle (get_or (ob_zone obstacle) ''safe''))"

definition report_events :: "report list \<Rightarrow> event list" where
  "report_events reports = concat (map (\<lambda>r. [SendAlert r, LogIncident r]) reports)"

section \<open>Notions used in the statements and proofs\<close>

text \<open>The counter of an unmatched track after an update: gone once it exceeds the bound.\<close>

definition bump :: "int \<Rightarrow> nat option \<Rightarrow> nat option" where
  "bump md v = (case v of None \<Rightarrow> None | Some d \<Rightarrow> if int (d + 1) > md then None else Some (d + 1))"

definition match_post :: "tracker \<Rightarrow> nat list \<Rightarrow> tracker \<Rightarrow> nat list \<Rightarrow> bool" where
  "match_post t ids t1 ids1 \<longleftrightarrow>
     tracker_inv t1 \<and> distinct ids1 \<and> set ids1 \<subseteq> set ids \<and>
     next_object_id t \<le> next_object_id t1 \<and> max_disappeared t1 = max_disappeared t \<and>
     (\<forall>k. k \<in> set ids1 \<or> (k \<notin> set ids \<and> k < next_object_id t) \<longrightarrow>
          map_of (objects t1) k = map_of (objects t) k \<and>
          map_of (disappeared t1) k = map_of (disappeared t) k) \<and>
     (\<forall>k. k \<in> set ids \<and> k \<notin> set ids1 \<longrightarrow>
          map_of (disappeared t1) k = Some 0 \<and> map_of (objects t1) k \<noteq> None)"

definition step_post :: "tracker \<Rightarrow> detection list \<Rightarrow> tracker \<Rightarrow> bool" where
  "step_post t ds t' \<longleftrightarrow>
     tracker_inv t' \<and> next_object_id t \<le> next_object_id t' \<and>
     max_disappeared t' = max_disappeared t \<and>
     (\<forall>k. k \<in> set (unmatched_ids t ds) \<longrightarrow>
          map_of (disappeared t') k = bump (max_disappeared t) (map_of (disappeared t) k) \<and>
          map_of (objects t') k =
            (if bump (max_disappeared t) (map_of (disappeared t) k) = None then None
             else map_of (objects t) k)) \<and>
     (\<forall>k. k \<in> set (keys (objects t)) \<and> k \<notin> set (unmatched_ids t ds) \<longrightarrow>
          map_of (disappeared t') k = Some 0 \<and> map_of (objects t') k \<noteq> None) \<and>
     (\<forall>k. k < next_object_id t \<and> k \<notin> set (keys (objects t)) \<longrightarrow>
          map_of (objects t') k = None)"

text \<open>
  The centre of the detection is not within the gating distance of 100 pixels of the
  centre stored for track \<open>k\<close>.
\<close>

definition far_from :: "tracker \<Rightarrow> nat \<Rightarrow> detection \<Rightarrow> bool" where
  "far_from t k det =
     (case map_of (objects t) k of
        None \<Rightarrow> False
      | Some ob \<Rightarrow> \<not> linalg_norm_diff (get_center (det_bbox det)) (get_center (det_bbox ob)) < 100)"

text \<open>The gate of step 6: a report is generated for the severities critical and high.\<close>

definition is_severe :: "distance_estimator \<Rightarrow> obstacle \<Rightarrow> bool" where
  "is_severe est obstacle \<longleftrightarrow>
     severity_of est obstacle = ''critical'' \<or> severity_of est obstacle = ''high''"

text \<open>
  The frame dimensions that step 5 divides by, after the initialisation at the head of
  \<^verbatim>\<open>process_frame\<close>, are set and not zero.
\<close>

definition frame_ready :: "system \<Rightarrow> int \<times> int \<Rightarrow> bool" where
  "frame_ready sys shape =
     (let ts = (if frame_width (sys_track_segmentation sys) = None
                then initialize_frame_dimensions (sys_track_segmentation sys) shape
                else sys_track_segmentation sys)
      in (case frame_width ts of None \<Rightarrow> False | Some w \<Rightarrow> w \<noteq> 0) \<and>
         (case frame_height ts of None \<Rightarrow> False | Some h \<Rightarrow> h \<noteq> 0))"

text \<open>Two confirmation states with the same parameters and frame counter.\<close>

definition same_cfg :: "mfc \<Rightarrow> mfc \<Rightarrow> bool" where
  "same_cfg m m' \<longleftrightarrow>
     min_consecutive_frames m' = min_consecutive_frames m \<and>
     max_frame_gap m' = max_frame_gap m \<and>
     movement_threshold m' = movement_threshold m \<and>
     frame_count m' = frame_count m"

text \<open>The history entry that a read of the \<^verbatim>\<open>defaultdict\<close> yields.\<close>

definition hist0 :: "mfc \<Rightarrow> nat \<Rightarrow> obstacle_history" where
  "hist0 m k = get_or (map_of (obstacle_history m) k) default_history"

definition mark_confirmed :: "mfc \<Rightarrow> obstacle_history \<Rightarrow> obstacle_history" where
  "mark_confirmed m h = h\<lparr>h_confirmed := h_confirmed h \<or> should_confirm m h\<rparr>"

definition item_post ::
  "mfc \<Rightarrow> real \<Rightarrow> obstacle list \<Rightarrow> mfc \<Rightarrow> obstacle list \<Rightarrow> nat \<Rightarrow> detection \<Rightarrow> bool" where
  "item_post m now conf m' conf' k det \<longleftrightarrow>
     (\<exists>h. advance_history m now (hist0 m k) det = Inr h \<and>
          map_of (obstacle_history m') k = Some (mark_confirmed m h) \<and>
          map_of (confirmed_obstacles m') k =
            (if should_confirm m h \<and> \<not> h_confirmed h then Some det
             else map_of (confirmed_obstacles m) k) \<and>
          (reported k conf' \<longleftrightarrow> reported k conf \<or> should_confirm m h))"

definition other_post ::
  "mfc \<Rightarrow> obstacle list \<Rightarrow> mfc \<Rightarrow> obstacle list \<Rightarrow> nat \<Rightarrow> bool" where
  "other_post m conf m' conf' k \<longleftrightarrow>
     map_of (obstacle_history m') k = map_of (obstacle_history m) k \<and>
     map_of (confirmed_obstacles m') k = map_of (confirmed_obstacles m) k \<and>
     (reported k conf' \<longleftrightarrow> reported k conf)"

text \<open>The history dictionary has no key twice.\<close>

definition mfc_inv :: "mfc \<Rightarrow> bool" where
  "mfc_inv m \<longleftrightarrow> distinct (keys (obstacle_history m))"

definition tick :: "mfc \<Rightarrow> mfc" where
  "tick m = m\<lparr>frame_count := frame_count m + 1\<rparr>"

section \<open>Worked inputs\<close>

text \<open>Detections on a 640 by 480 frame, and runs of the pipeline on them.\<close>

definition human_det :: detection where
  "human_det = \<lparr>det_class = ''human'', det_confidence = 0.95,
                 det_bbox = (100, 100, 150, 200), det_class_id = 0\<rparr>"

definition animal_det :: detection where
  "animal_det = \<lparr>det_class = ''animal'', det_confidence = 0.9,
                  det_bbox = (200, 300, 240, 348), det_class_id = 16\<rparr>"

definition track_human_det :: detection where
  "track_human_det = \<lparr>det_class = ''human'', det_confidence = 0.9,
                       det_bbox = (300, 300, 340, 348), det_class_id = 0\<rparr>"

text \<open>A detection whose box has no width (x2 = x1).\<close>

definition degenerate_det :: detection where
  "degenerate_det = \<lparr>det_class = ''human'', det_confidence = 0.9,
                      det_bbox = (100, 100, 100, 200), det_class_id = 0\<rparr>"

text \<open>
  Ten updates of the confirmation stage, one per second: track 7 is present in the first
  five, absent in the next four and present again in the tenth.
\<close>

definition gap_inputs :: "(real \<times> (nat \<times> detection) list) list" where
  "gap_inputs =
     [(1, [(7, human_det)]), (2, [(7, human_det)]), (3, [(7, human_det)]),
      (4, [(7, human_det)]), (5, [(7, human_det)]),
      (6, []), (7, []), (8, []), (9, []), (10, [(7, human_det)])]"

text \<open>
  For a run: whether each update's result lists track \<open>k\<close>, and after the run the
  confirmed flag of \<open>k\<close> and the ids of the registry of confirmed obstacles.
\<close>

definition run_report ::
  "nat \<Rightarrow> mfc \<Rightarrow> (real \<times> (nat \<times> detection) list) list \<Rightarrow>
   py_error + bool list \<times> bool option \<times> nat list" where
  "run_report k m inputs =
     (case mfc_updates m inputs of
        Inl e \<Rightarrow> Inl e
      | Inr (outs, m') \<Rightarrow>
          Inr (map (reported k) outs,
               map_option h_confirmed (map_of (obstacle_history m') k),
               get_all_confirmed_ids m'))"

text \<open>Five frames, one per second, each with the same single detection.\<close>

definition five_frames :: "detection \<Rightarrow> ((int \<times> int) \<times> detection list \<times> real) list" where
  "five_frames d =
     [((480, 640), [d], 1), ((480, 640), [d], 2), ((480, 640), [d], 3),
      ((480, 640), [d], 4), ((480, 640), [d], 5)]"

text \<open>
  Per frame of a run: the severities of the obstacles that passed confirmation and
  filtering, the number of incident reports and the number of calls to the collaborators.
\<close>

definition frame_summary :: "distance_estimator \<Rightarrow> frame_result \<Rightarrow> string list \<times> nat \<times> nat" where
  "frame_summary est res =
     (map (severity_of est) (fr_filtered_obstacles res),
      length (fr_incidents res), length (fr_events res))"

definition run_summary ::
  "system \<Rightarrow> ((int \<times> int) \<times> detection list \<times> real) list \<Rightarrow>
   py_error + (string list \<times> nat \<times> nat) list" where
  "run_summary sys inputs =
     (case process_frames sys inputs of
        Inl e \<Rightarrow> Inl e
      | Inr (ress, sys') \<Rightarrow> Inr (map (frame_summary (sys_estimator sys)) ress))"

text \<open>The tracker's dictionary after one frame.\<close>

definition tracked_after ::
  "system \<Rightarrow> int \<times> int \<Rightarrow> detection list \<Rightarrow> real \<Rightarrow> py_error + (nat \<times> detection) list" where
  "tracked_after sys shape detections current_time =
     (case process_frame sys shape detections current_time of
        Inl e \<Rightarrow> Inl e | Inr (res, sys') \<Rightarrow> Inr (objects (sys_tracker sys')))"

section \<open>Theorems\<close>

lemma classify_mk:
  "classify (mk_incident c z t s) =
     (if is_critical c z t s then ''critical''
      else if is_high c z t s then ''high''
      else if is_medium c z t then ''medium'' else ''low'')"
  by (simp add: classify_def mk_incident_def get_or_def)

lemma is_critical_spec: "is_critical c z t s = spec_critical c z t s"
  by (simp add: is_critical_def spec_critical_def py_any_def)

lemma is_high_spec: "is_high c z t s = spec_high c z t s"
  by (simp add: is_high_def spec_high_def py_any_def)

lemma is_medium_spec: "is_medium c z t = spec_medium c z t"
  by (simp add: is_medium_def spec_medium_def py_any_def)

text \<open>
  C1. For every incident with the fields obstacle\_class, zone, ttc and is\_static, the
  classifier answers critical exactly when a critical predicate holds; otherwise high
  exactly when a high predicate holds; otherwise medium exactly when a medium predicate
  holds; otherwise low. A human in the critical zone at ttc 15 is critical, an animal in
  the warning zone at ttc 45 is medium.
\<close>

theorem C1_classify_rules:
  "(classify (mk_incident c z t s) = ''critical'' \<longleftrightarrow> spec_critical c z t s) \<and>
   (\<not> spec_critical c z t s \<longrightarrow>
      (classify (mk_incident c z t s) = ''high'' \<longleftrightarrow> spec_high c z t s)) \<and>
   (\<not> spec_critical c z t s \<and> \<not> spec_high c z t s \<longrightarrow>
      (classify (mk_incident c z t s) = ''medium'' \<longleftrightarrow> spec_medium c z t)) \<and>
   (\<not> spec_critical c z t s \<and> \<not> spec_high c z t s \<and> \<not> spec_medium c z t \<longrightarrow>
      classify (mk_incident c z t s) = ''low'') \<and>
   classify (mk_incident ''human'' ''critical'' (Fin 15) s) = ''critical'' \<and>
   classify (mk_incident ''animal'' ''warning'' (Fin 45) s) = ''medium''"
proof -
  have ex1: "classify (mk_incident ''human'' ''critical'' (Fin 15) s) = ''critical''"
    by (simp add: classify_mk is_critical_spec spec_critical_def)
  have ex2: "classify (mk_incident ''animal'' ''warning'' (Fin 45) s) = ''medium''"
    by (simp add: classify_mk is_critical_spec is_high_spec is_medium_spec
        spec_critical_def spec_high_def spec_medium_def)
  have gen: "classify (mk_incident c z t s) =
     (if spec_critical c z t s then ''critical''
      else if spec_high c z t s then ''high''
      else if spec_medium c z t then ''medium'' else ''low'')"
    by (simp add: classify_mk is_critical_spec is_high_spec is_medium_spec)
  show ?thesis
    using ex1 ex2 by (simp add: gen)
qed

theorem C1_classify_rules_witness:
  "\<not> spec_critical ''animal'' ''warning'' (Fin 45) False \<and>
   \<not> spec_high ''animal'' ''warning'' (Fin 45) False \<and>
   spec_medium ''animal'' ''warning'' (Fin 45) \<and>
   classify (mk_incident ''animal'' ''warning'' (Fin 45) False) = ''medium'' \<and>
   \<not> spec_medium ''debris'' ''safe'' PInf \<and>
   classify (mk_incident ''debris'' ''safe'' PInf True) = ''low''"
  using C1_classify_rules [of "''animal''" "''warning''" "Fin 45" False]
    C1_classify_rules [of "''debris''" "''safe''" PInf True]
  by (simp add: spec_critical_def spec_high_def spec_medium_def)

text \<open>
  C2. The estimated distance is infinite when the pixel height is 0 and otherwise the
  known height of the class times the focal length over the pixel height, not below 0;
  the time to collision is infinite at speed 0 and otherwise the distance over the speed
  in metres per second. With the default estimator a human of bounding box
  (200, 200, 250, 400) is 6.8 m away and at 60 km/h the time to collision is
  6.8 / (60 / 3.6) = 0.408 s.
\<close>

theorem C2_distance_and_ttc:
  "estimate_distance est (ob\<lparr>det_class := c, det_bbox := (x1, y1, x2, y2)\<rparr>) =
     (if y2 - y1 = 0 then PInf
      else Fin (max 0 (known_height est c * focal_length est / real_of_int (y2 - y1)))) \<and>
   calculate_ttc est d (Some s) = (if s = 0 then PInf else fdiv d (s / 3.6)) \<and>
   (s \<noteq> 0 \<longrightarrow> calculate_ttc est (Fin x) (Some s) = Fin (x / (s / 3.6))) \<and>
   known_height default_estimator ''human'' = 1.7 \<and>
   focal_length default_estimator = 800 \<and>
   estimate_distance default_estimator
     (ob\<lparr>det_class := ''human'', det_bbox := (200, 200, 250, 400)\<rparr>) = Fin 6.8 \<and>
   calculate_ttc default_estimator (Fin 6.8) (Some 60) = Fin (6.8 / (60 / 3.6)) \<and>
   calculate_ttc default_estimator (Fin 6.8) (Some 60) = Fin 0.408"
  by (simp add: estimate_distance_def calculate_ttc_def known_height_def
      default_estimator_def get_or_def Let_def)

theorem C2_distance_and_ttc_witness:
  "(90::real) \<noteq> 0 \<and>
   calculate_ttc default_estimator (Fin 50) (Some 90) = Fin 2 \<and>
   estimate_distance default_estimator
     \<lparr>det_class = ''animal'', det_confidence = 0.9, det_bbox = (0, 100, 50, 100),
      det_class_id = 16\<rparr> = PInf"
  using C2_distance_and_ttc [where est = default_estimator and c = "''animal''"
      and ob = "\<lparr>det_class = ''animal'', det_confidence = 0.9, det_bbox = (0, 100, 50, 100),
        det_class_id = 16\<rparr>"
      and ?x1.0 = 0 and ?y1.0 = 100 and ?x2.0 = 50 and ?y2.0 = 100
      and d = "Fin 50" and s = 90 and x = 50]
  by simp

lemma base_spec: "get_or (map_of class_scores c) 25 = spec_base c"
  by (simp add: class_scores_def get_or_def spec_base_def)

lemma mult_spec: "get_or (map_of zone_multipliers z) 1.0 = spec_mult z"
  by (simp add: zone_multipliers_def get_or_def spec_mult_def)

lemma calculate_risk_score_spec:
  "calculate_risk_score c z t s =
     min 100 (spec_base c * spec_mult z + spec_ttc_bonus t + spec_static_bonus s)"
  unfolding calculate_risk_score_def Let_def base_spec mult_spec
  by (simp add: spec_ttc_bonus_def spec_static_bonus_def)

text \<open>
  C5. The risk score is min(100, base * mult + ttc\_bonus + static\_bonus) with the
  tabulated base scores, zone multipliers, time-to-collision bonus and static bonus; the
  risk level is critical from 75, high from 50, medium from 25 and low below.
\<close>

theorem C5_risk_score_and_level:
  "calculate_risk_score c z t s =
     min 100 (spec_base c * spec_mult z + spec_ttc_bonus t + spec_static_bonus s) \<and>
   (75 \<le> r \<longrightarrow> get_risk_level r = ''critical'') \<and>
   (50 \<le> r \<and> r < 75 \<longrightarrow> get_risk_level r = ''high'') \<and>
   (25 \<le> r \<and> r < 50 \<longrightarrow> get_risk_level r = ''medium'') \<and>
   (r < 25 \<longrightarrow> get_risk_level r = ''low'')"
  by (simp add: calculate_risk_score_spec get_risk_level_def)

theorem C5_risk_score_and_level_witness:
  "calculate_risk_score ''human'' ''critical'' (Fin 5) True = 100 \<and>
   calculate_risk_score ''debris'' ''safe'' PInf False = 10 \<and>
   calculate_risk_score ''animal'' ''warning'' (Fin 15) True = 75 \<and>
   get_risk_level 75 = ''critical'' \<and> get_risk_level 50 = ''high'' \<and>
   get_risk_level 25 = ''medium'' \<and> get_risk_level 10 = ''low''"
  using C5_risk_score_and_level [of "''human''" "''critical''" "Fin 5" True 75]
    C5_risk_score_and_level [of "''debris''" "''safe''" PInf False 50]
    C5_risk_score_and_level [of "''animal''" "''warning''" "Fin 15" True 25]
    C5_risk_score_and_level [of "''animal''" "''warning''" "Fin 15" True 10]
  by (simp add: spec_base_def spec_mult_def spec_ttc_bonus_def spec_static_bonus_def)

lemma classify_zone_spec:
  assumes "frame_width ts = Some w" "frame_height ts = Some h" "w \<noteq> 0" "h \<noteq> 0"
  shows "classify_zone ts (x1, y1, x2, y2) =
           Inr (spec_zone ts (real_of_int (x1 + x2) / 2 / real_of_int w)
                             (real_of_int (y1 + y2) / 2 / real_of_int h))"
  using assms by (simp add: classify_zone_def py_truediv_def spec_zone_def Let_def)

text \<open>
  C6. With the frame dimensions initialised (to a frame of non-zero width and height),
  a bounding box is safe when its normalised vertical centre is outside the band
  [track\_top\_y, track\_bottom\_y]; otherwise critical when the normalised horizontal
  centre is within critical\_zone\_width / 2 of 0.5, else warning within
  warning\_zone\_width / 2, else safe. A box centred at half the frame width and at the
  vertical midpoint of the band (a band with top at most bottom, a critical width that is
  not negative) is critical.
\<close>

theorem C6_classify_zone:
  assumes "frame_width ts = Some w" "frame_height ts = Some h" "w \<noteq> 0" "h \<noteq> 0"
  shows "classify_zone ts (x1, y1, x2, y2) =
           Inr (spec_zone ts (real_of_int (x1 + x2) / 2 / real_of_int w)
                             (real_of_int (y1 + y2) / 2 / real_of_int h)) \<and>
         (track_top_y ts \<le> track_bottom_y ts \<and> 0 \<le> critical_zone_width ts \<and>
          real_of_int (x1 + x2) / 2 = 0.5 * real_of_int w \<and>
          real_of_int (y1 + y2) / 2 = (track_top_y ts + track_bottom_y ts) / 2 * real_of_int h
          \<longrightarrow> classify_zone ts (x1, y1, x2, y2) = Inr ''critical'')"
proof -
  have gen: "classify_zone ts (x1, y1, x2, y2) =
           Inr (spec_zone ts (real_of_int (x1 + x2) / 2 / real_of_int w)
                             (real_of_int (y1 + y2) / 2 / real_of_int h))"
    using assms by (rule classify_zone_spec)
  have mid: "classify_zone ts (x1, y1, x2, y2) = Inr ''critical''"
    if c: "track_top_y ts \<le> track_bottom_y ts" "0 \<le> critical_zone_width ts"
      and cx: "real_of_int (x1 + x2) / 2 = 0.5 * real_of_int w"
      and cy: "real_of_int (y1 + y2) / 2 = (track_top_y ts + track_bottom_y ts) / 2 * real_of_int h"
  proof -
    have nx: "real_of_int (x1 + x2) / 2 / real_of_int w = 1 / 2"
      using cx assms(3) by simp
    have ny: "real_of_int (y1 + y2) / 2 / real_of_int h = (track_top_y ts + track_bottom_y ts) / 2"
      using cy assms(4) by simp
    show ?thesis
      unfolding gen nx ny using c by (simp add: spec_zone_def)
  qed
  show ?thesis using gen mid by blast
qed

theorem C6_classify_zone_witness:
  "classify_zone (initialize_frame_dimensions default_track_segmentation (480, 640))
     (300, 300, 340, 348) = Inr ''critical'' \<and>
   classify_zone (initialize_frame_dimensions default_track_segmentation (480, 640))
     (100, 300, 140, 348) = Inr ''safe'' \<and>
   classify_zone (initialize_frame_dimensions default_track_segmentation (480, 640))
     (200, 300, 240, 348) = Inr ''warning'' \<and>
   classify_zone (initialize_frame_dimensions default_track_segmentation (480, 640))
     (300, 10, 340, 58) = Inr ''safe''"
  using C6_classify_zone [where ts = "initialize_frame_dimensions default_track_segmentation (480, 640)"
      and w = 640 and h = 480 and ?x1.0 = 300 and ?y1.0 = 300 and ?x2.0 = 340 and ?y2.0 = 348]
    C6_classify_zone [where ts = "initialize_frame_dimensions default_track_segmentation (480, 640)"
      and w = 640 and h = 480 and ?x1.0 = 100 and ?y1.0 = 300 and ?x2.0 = 140 and ?y2.0 = 348]
    C6_classify_zone [where ts = "initialize_frame_dimensions default_track_segmentation (480, 640)"
      and w = 640 and h = 480 and ?x1.0 = 200 and ?y1.0 = 300 and ?x2.0 = 240 and ?y2.0 = 348]
    C6_classify_zone [where ts = "initialize_frame_dimensions default_track_segmentation (480, 640)"
      and w = 640 and h = 480 and ?x1.0 = 300 and ?y1.0 = 10 and ?x2.0 = 340 and ?y2.0 = 58]
  by (simp add: initialize_frame_dimensions_def default_track_segmentation_def spec_zone_def)

subsection \<open>The tracker: helper lemmas\<close>


lemma keys_update: "keys (AList.update k v d) = (if k \<in> set (keys d) then keys d else keys d @ [k])"
  by (induction d) (auto simp: keys_def)

lemma keys_delete: "keys (AList.delete k d) = removeAll k (keys d)"
  by (induction d) (auto simp: keys_def)

lemma map_of_None_keys: "map_of d k = None \<longleftrightarrow> k \<notin> set (keys d)"
  by (simp add: keys_def map_of_eq_None_iff)

lemma register_fields:
  "next_object_id (fst (register t d)) = next_object_id t + 1"
  "snd (register t d) = next_object_id t"
  "max_disappeared (fst (register t d)) = max_disappeared t"
  "objects (fst (register t d)) = AList.update (next_object_id t) d (objects t)"
  "disappeared (fst (register t d)) = AList.update (next_object_id t) 0 (disappeared t)"
  by (simp_all add: register_def Let_def)

lemma inv_fresh: "tracker_inv t \<Longrightarrow> next_object_id t \<notin> set (keys (objects t))"
  by (auto simp: tracker_inv_def list_all_iff)

lemma register_inv: "tracker_inv t \<Longrightarrow> tracker_inv (fst (register t d))"
  using inv_fresh[of t]
  by (auto simp: tracker_inv_def register_fields keys_update list_all_iff less_Suc_eq)

lemma register_keys:
  "tracker_inv t \<Longrightarrow> keys (objects (fst (register t d))) = keys (objects t) @ [next_object_id t]"
  using inv_fresh[of t] by (simp add: register_fields keys_update)

lemma mark_disappeared_ok:
  assumes "tracker_inv t" "k \<in> set (keys (objects t))"
  shows "\<exists>t'. mark_disappeared t k = Inr t' \<and> tracker_inv t' \<and>
           next_object_id t' = next_object_id t \<and> max_disappeared t' = max_disappeared t \<and>
           map_of (disappeared t') = (map_of (disappeared t))(k := bump (max_disappeared t) (map_of (disappeared t) k)) \<and>
           map_of (objects t') = (if bump (max_disappeared t) (map_of (disappeared t) k) = None
                                  then (map_of (objects t))(k := None) else map_of (objects t)) \<and>
           keys (objects t') = (if bump (max_disappeared t) (map_of (disappeared t) k) = None
                                  then removeAll k (keys (objects t)) else keys (objects t))"
proof -
  from assms have kd: "k \<in> set (keys (disappeared t))" by (simp add: tracker_inv_def)
  then obtain d where d: "map_of (disappeared t) k = Some d"
    using map_of_None_keys[of "disappeared t" k] by (cases "map_of (disappeared t) k") auto
  from assms(2) have ko: "map_of (objects t) k \<noteq> None" by (simp add: map_of_None_keys)
  show ?thesis
  proof (cases "int (d + 1) > max_disappeared t")
    case True
    then show ?thesis using assms d ko kd
      by (auto simp: mark_disappeared_def deregister_def Let_def bump_def tracker_inv_def
          keys_update keys_delete map_of_None_keys update_conv' delete_conv' distinct_removeAll
          list_all_iff fun_upd_idem)
  next
    case False
    then show ?thesis using assms d ko kd
      by (auto simp: mark_disappeared_def Let_def bump_def tracker_inv_def
          keys_update update_conv' list_all_iff)
  qed
qed

lemma mark_all_ok:
  assumes "tracker_inv t" "distinct ids" "set ids \<subseteq> set (keys (objects t))"
  shows "\<exists>t'. mark_all ids t = Inr t' \<and> tracker_inv t' \<and>
           next_object_id t' = next_object_id t \<and> max_disappeared t' = max_disappeared t \<and>
           (\<forall>k. map_of (disappeared t') k =
                  (if k \<in> set ids then bump (max_disappeared t) (map_of (disappeared t) k)
                   else map_of (disappeared t) k)) \<and>
           (\<forall>k. map_of (objects t') k =
                  (if k \<in> set ids \<and> bump (max_disappeared t) (map_of (disappeared t) k) = None
                   then None else map_of (objects t) k))"
  using assms
proof (induction ids arbitrary: t)
  case Nil
  then show ?case by simp
next
  case (Cons a ids)
  from Cons.prems have a: "a \<in> set (keys (objects t))" by simp
  from mark_disappeared_ok[OF Cons.prems(1) a] obtain t1 where
    t1: "mark_disappeared t a = Inr t1" "tracker_inv t1"
      "next_object_id t1 = next_object_id t" "max_disappeared t1 = max_disappeared t"
      "map_of (disappeared t1) = (map_of (disappeared t))(a := bump (max_disappeared t) (map_of (disappeared t) a))"
      "map_of (objects t1) = (if bump (max_disappeared t) (map_of (disappeared t) a) = None
                                  then (map_of (objects t))(a := None) else map_of (objects t))"
      "keys (objects t1) = (if bump (max_disappeared t) (map_of (disappeared t) a) = None
                                  then removeAll a (keys (objects t)) else keys (objects t))"
    by blast
  from Cons.prems have d: "distinct ids" and na: "a \<notin> set ids" by auto
  from Cons.prems na have sub: "set ids \<subseteq> set (keys (objects t1))"
    by (auto simp: t1(7))
  from Cons.IH[OF t1(2) d sub] obtain t' where
    t': "mark_all ids t1 = Inr t'" "tracker_inv t'"
      "next_object_id t' = next_object_id t1" "max_disappeared t' = max_disappeared t1"
      "\<forall>k. map_of (disappeared t') k =
                  (if k \<in> set ids then bump (max_disappeared t1) (map_of (disappeared t1) k)
                   else map_of (disappeared t1) k)"
      "\<forall>k. map_of (objects t') k =
                  (if k \<in> set ids \<and> bump (max_disappeared t1) (map_of (disappeared t1) k) = None
                   then None else map_of (objects t1) k)"
    by blast
  have "mark_all (a # ids) t = Inr t'" using t1(1) t'(1) by simp
  moreover have "\<forall>k. map_of (disappeared t') k =
                  (if k \<in> set (a # ids) then bump (max_disappeared t) (map_of (disappeared t) k)
                   else map_of (disappeared t) k)"
    using t'(5) t1(4,5) na by auto
  moreover have "\<forall>k. map_of (objects t') k =
                  (if k \<in> set (a # ids) \<and> bump (max_disappeared t) (map_of (disappeared t) k) = None
                   then None else map_of (objects t) k)"
    using t'(6) t1(4,5,6) na by auto
  ultimately show ?case using t'(2,3,4) t1(3,4) by auto
qed

lemma best_match_loop_ok:
  assumes "set ids \<subseteq> set (keys (objects t))"
  shows "\<exists>bm md. best_match_loop t c ids (bm0, md0) = Inr (bm, md) \<and>
           (bm = bm0 \<or> (\<exists>b \<in> set ids. bm = Some b))"
  using assms
proof (induction ids arbitrary: bm0 md0)
  case Nil
  then show ?case by simp
next
  case (Cons a ids)
  from Cons.prems obtain ob where ob: "map_of (objects t) a = Some ob"
    using map_of_None_keys[of "objects t" a] by (cases "map_of (objects t) a") auto
  from Cons.prems have sub: "set ids \<subseteq> set (keys (objects t))" by simp
  show ?case
  proof (cases "rlt (linalg_norm_diff c (get_center (det_bbox ob))) md0")
    case True
    from Cons.IH[OF sub, of "Some a" "Fin (linalg_norm_diff c (get_center (det_bbox ob)))"]
    show ?thesis using ob True by (auto simp: Let_def)
  next
    case False
    from Cons.IH[OF sub, of bm0 md0]
    show ?thesis using ob False by (auto simp: Let_def)
  qed
qed

lemma match_step_inv:
  assumes "tracker_inv t" "b \<in> set (keys (objects t))"
  shows "tracker_inv (t\<lparr>objects := AList.update b d (objects t),
                         disappeared := AList.update b 0 (disappeared t)\<rparr>)"
  using assms by (auto simp: tracker_inv_def keys_update list_all_iff)

lemma match_detections_ok:
  assumes "tracker_inv t" "distinct ids" "set ids \<subseteq> set (keys (objects t))"
  shows "\<exists>t1 ids1. match_detections ds t ids = Inr (t1, ids1) \<and> match_post t ids t1 ids1"
  using assms
proof (induction ds arbitrary: t ids)
  case Nil
  then show ?case by (simp add: match_post_def)
next
  case (Cons det ds)
  from best_match_loop_ok[OF Cons.prems(3), of "get_center (det_bbox det)" None PInf]
  obtain bm md where bm: "best_match_loop t (get_center (det_bbox det)) ids (None, PInf) = Inr (bm, md)"
    "bm = None \<or> (\<exists>b \<in> set ids. bm = Some b)" by blast
  have below: "\<And>k. k \<in> set (keys (objects t)) \<Longrightarrow> k < next_object_id t"
    using Cons.prems(1) by (auto simp: tracker_inv_def list_all_iff)
  show ?case
  proof (cases "\<exists>b. bm = Some b \<and> flt md 100")
    case True
    then obtain b where b: "bm = Some b" "flt md 100" by blast
    with bm(2) have bin: "b \<in> set ids" by auto
    let ?t' = "t\<lparr>objects := AList.update b det (objects t),
                  disappeared := AList.update b 0 (disappeared t)\<rparr>"
    have bk: "b \<in> set (keys (objects t))" using bin Cons.prems(3) by auto
    have rm: "set (remove1 b ids) = set ids - {b}" using Cons.prems(2) by simp
    have inv': "tracker_inv ?t'" using match_step_inv[OF Cons.prems(1) bk] .
    have d': "distinct (remove1 b ids)" using Cons.prems(2) by simp
    have sub': "set (remove1 b ids) \<subseteq> set (keys (objects ?t'))"
      using Cons.prems(3) bk rm by (auto simp: keys_update)
    from Cons.IH[OF inv' d' sub'] obtain t1 ids1 where
      r: "match_detections ds ?t' (remove1 b ids) = Inr (t1, ids1)"
        "match_post ?t' (remove1 b ids) t1 ids1" by blast
    have eq: "match_detections (det # ds) t ids = Inr (t1, ids1)"
      using bm(1) b r(1) by simp
    have bnot: "b \<notin> set (remove1 b ids)" using Cons.prems(2) by simp
    have post: "match_post t ids t1 ids1"
      unfolding match_post_def
    proof (intro conjI allI impI)
      show "tracker_inv t1" "distinct ids1" "max_disappeared t1 = max_disappeared t"
        "next_object_id t \<le> next_object_id t1"
        using r(2) by (simp_all add: match_post_def)
      show "set ids1 \<subseteq> set ids" using r(2) rm by (auto simp: match_post_def)
    next
      fix k assume k: "k \<in> set ids1 \<or> (k \<notin> set ids \<and> k < next_object_id t)"
      have kb: "k \<noteq> b" using k bin rm r(2) by (auto simp: match_post_def)
      have "k \<in> set ids1 \<or> (k \<notin> set (remove1 b ids) \<and> k < next_object_id ?t')"
        using k rm by auto
      with r(2) have "map_of (objects t1) k = map_of (objects ?t') k \<and>
          map_of (disappeared t1) k = map_of (disappeared ?t') k"
        unfolding match_post_def by blast
      then show "map_of (objects t1) k = map_of (objects t) k"
        "map_of (disappeared t1) k = map_of (disappeared t) k"
        using kb by (simp_all add: update_conv')
    next
      fix k assume k: "k \<in> set ids \<and> k \<notin> set ids1"
      show "map_of (disappeared t1) k = Some 0"
      proof (cases "k = b")
        case True
        have "b \<notin> set (remove1 b ids) \<and> b < next_object_id ?t'"
          using bnot below[OF bk] by simp
        with r(2) have "map_of (disappeared t1) b = map_of (disappeared ?t') b"
          unfolding match_post_def by blast
        then show ?thesis using True by (simp add: update_conv')
      next
        case False
        with k rm have "k \<in> set (remove1 b ids) \<and> k \<notin> set ids1" by simp
        with r(2) show ?thesis unfolding match_post_def by blast
      qed
      show "map_of (objects t1) k \<noteq> None"
      proof (cases "k = b")
        case True
        have "b \<notin> set (remove1 b ids) \<and> b < next_object_id ?t'"
          using bnot below[OF bk] by simp
        with r(2) have "map_of (objects t1) b = map_of (objects ?t') b"
          unfolding match_post_def by blast
        then show ?thesis using True by (simp add: update_conv')
      next
        case False
        with k rm have "k \<in> set (remove1 b ids) \<and> k \<notin> set ids1" by simp
        with r(2) show ?thesis unfolding match_post_def by blast
      qed
    qed
    show ?thesis using eq post by blast
  next
    case False
    let ?t' = "fst (register t det)"
    have inv': "tracker_inv ?t'" using register_inv[OF Cons.prems(1)] .
    have sub': "set ids \<subseteq> set (keys (objects ?t'))"
      using Cons.prems(3) by (simp add: register_keys[OF Cons.prems(1)] subset_iff)
    from Cons.IH[OF inv' Cons.prems(2) sub'] obtain t1 ids1 where
      r: "match_detections ds ?t' ids = Inr (t1, ids1)"
        "match_post ?t' ids t1 ids1" by blast
    have eq: "match_detections (det # ds) t ids = Inr (t1, ids1)"
      using bm(1) False r(1) by (cases bm) auto
    have idsbelow: "\<And>k. k \<in> set ids \<Longrightarrow> k \<noteq> next_object_id t"
      using below Cons.prems(3) by fastforce
    have post: "match_post t ids t1 ids1"
      unfolding match_post_def
    proof (intro conjI allI impI)
      show "tracker_inv t1" "distinct ids1" "max_disappeared t1 = max_disappeared t"
        "next_object_id t \<le> next_object_id t1" "set ids1 \<subseteq> set ids"
        using r(2) by (simp_all add: match_post_def register_fields)
    next
      fix k assume k: "k \<in> set ids1 \<or> (k \<notin> set ids \<and> k < next_object_id t)"
      have kn: "k \<noteq> next_object_id t" using k idsbelow r(2) by (auto simp: match_post_def)
      have "k \<in> set ids1 \<or> (k \<notin> set ids \<and> k < next_object_id ?t')"
        using k by (auto simp: register_fields)
      with r(2) have "map_of (objects t1) k = map_of (objects ?t') k \<and>
          map_of (disappeared t1) k = map_of (disappeared ?t') k"
        unfolding match_post_def by blast
      then show "map_of (objects t1) k = map_of (objects t) k"
        "map_of (disappeared t1) k = map_of (disappeared t) k"
        using kn by (simp_all add: update_conv' register_fields)
    next
      fix k assume k: "k \<in> set ids \<and> k \<notin> set ids1"
      with r(2) show "map_of (disappeared t1) k = Some 0" "map_of (objects t1) k \<noteq> None"
        unfolding match_post_def by blast+
    qed
    show ?thesis using eq post by blast
  qed
qed

lemma register_all_ok:
  assumes "tracker_inv t"
  shows "tracker_inv (register_all ds t) \<and>
         next_object_id (register_all ds t) = next_object_id t + length ds \<and>
         max_disappeared (register_all ds t) = max_disappeared t \<and>
         (\<forall>k. k < next_object_id t \<longrightarrow>
              map_of (objects (register_all ds t)) k = map_of (objects t) k \<and>
              map_of (disappeared (register_all ds t)) k = map_of (disappeared t) k)"
  using assms
proof (induction ds arbitrary: t)
  case Nil
  then show ?case by simp
next
  case (Cons d ds)
  from Cons.IH[OF register_inv[OF Cons.prems], of d]
  show ?case by (auto simp: register_fields update_conv')
qed

lemma unmatched_subset:
  assumes "tracker_inv t"
  shows "set (unmatched_ids t ds) \<subseteq> set (keys (objects t))"
proof -
  have d: "distinct (keys (objects t))" using assms unfolding tracker_inv_def by blast
  from match_detections_ok[OF assms d subset_refl, of ds] obtain t1 ids1 where
    "match_detections ds t (keys (objects t)) = Inr (t1, ids1)"
    "match_post t (keys (objects t)) t1 ids1" by blast
  then show ?thesis using assms
    by (auto simp: unmatched_ids_def match_post_def tracker_inv_def)
qed

lemma tracker_step_ok:
  assumes "tracker_inv t"
  shows "\<exists>t'. tracker_step t ds = Inr t' \<and> step_post t ds t'"
proof -
  have d: "distinct (keys (objects t))" using assms unfolding tracker_inv_def by blast
  have kk: "keys (disappeared t) = keys (objects t)" using assms unfolding tracker_inv_def by simp
  have absent: "\<And>k. k \<notin> set (keys (objects t)) \<Longrightarrow> map_of (objects t) k = None"
    by (simp add: map_of_None_keys)
  consider (empty) "length ds = 0" | (fresh) "length ds \<noteq> 0" "length (objects t) = 0"
    | (match) "length ds \<noteq> 0" "length (objects t) \<noteq> 0" by blast
  then show ?thesis
  proof cases
    case empty
    from mark_all_ok[OF assms d subset_refl] obtain t' where
      t': "mark_all (keys (objects t)) t = Inr t'" "tracker_inv t'"
        "next_object_id t' = next_object_id t" "max_disappeared t' = max_disappeared t"
        "\<forall>k. map_of (disappeared t') k =
                  (if k \<in> set (keys (objects t)) then bump (max_disappeared t) (map_of (disappeared t) k)
                   else map_of (disappeared t) k)"
        "\<forall>k. map_of (objects t') k =
                  (if k \<in> set (keys (objects t)) \<and> bump (max_disappeared t) (map_of (disappeared t) k) = None
                   then None else map_of (objects t) k)"
      by blast
    have u: "unmatched_ids t ds = keys (objects t)" using empty kk by (simp add: unmatched_ids_def)
    have s: "tracker_step t ds = Inr t'" using empty kk t'(1) by (simp add: tracker_step_def)
    have "step_post t ds t'"
      unfolding step_post_def u using t'(2-6) absent by auto
    with s show ?thesis by blast
  next
    case fresh
    have u: "unmatched_ids t ds = []" using fresh by (simp add: unmatched_ids_def)
    have s: "tracker_step t ds = Inr (register_all ds t)" using fresh by (simp add: tracker_step_def)
    have e: "keys (objects t) = []" using fresh by (simp add: keys_def)
    have "step_post t ds (register_all ds t)"
      unfolding step_post_def u e using register_all_ok[OF assms, of ds] fresh by auto
    with s show ?thesis by blast
  next
    case match
    from match_detections_ok[OF assms d subset_refl, of ds] obtain t1 ids1 where
      m: "match_detections ds t (keys (objects t)) = Inr (t1, ids1)"
        "match_post t (keys (objects t)) t1 ids1" by blast
    have u: "unmatched_ids t ds = ids1" using match m(1) by (simp add: unmatched_ids_def)
    have mp: "tracker_inv t1" "distinct ids1" "set ids1 \<subseteq> set (keys (objects t))"
      "next_object_id t \<le> next_object_id t1" "max_disappeared t1 = max_disappeared t"
      "\<And>k. k \<in> set ids1 \<or> (k \<notin> set (keys (objects t)) \<and> k < next_object_id t) \<Longrightarrow>
          map_of (objects t1) k = map_of (objects t) k \<and>
          map_of (disappeared t1) k = map_of (disappeared t) k"
      "\<And>k. k \<in> set (keys (objects t)) \<and> k \<notin> set ids1 \<Longrightarrow>
          map_of (disappeared t1) k = Some 0 \<and> map_of (objects t1) k \<noteq> None"
      using m(2) unfolding match_post_def by blast+
    have sub1: "set ids1 \<subseteq> set (keys (objects t1))"
    proof
      fix k assume k: "k \<in> set ids1"
      then have "map_of (objects t1) k = map_of (objects t) k" using mp(6) by blast
      moreover have "map_of (objects t) k \<noteq> None" using k mp(3) by (auto simp: map_of_None_keys)
      ultimately show "k \<in> set (keys (objects t1))" using map_of_None_keys[of "objects t1" k] by auto
    qed
    from mark_all_ok[OF mp(1) mp(2) sub1] obtain t' where
      t': "mark_all ids1 t1 = Inr t'" "tracker_inv t'"
        "next_object_id t' = next_object_id t1" "max_disappeared t' = max_disappeared t1"
        "\<forall>k. map_of (disappeared t') k =
                  (if k \<in> set ids1 then bump (max_disappeared t1) (map_of (disappeared t1) k)
                   else map_of (disappeared t1) k)"
        "\<forall>k. map_of (objects t') k =
                  (if k \<in> set ids1 \<and> bump (max_disappeared t1) (map_of (disappeared t1) k) = None
                   then None else map_of (objects t1) k)"
      by blast
    have s: "tracker_step t ds = Inr t'" using match m(1) t'(1) by (simp add: tracker_step_def)
    have "step_post t ds t'"
      unfolding step_post_def u
    proof (intro conjI allI impI)
      show "tracker_inv t'" "next_object_id t \<le> next_object_id t'"
        "max_disappeared t' = max_disappeared t"
        using t'(2,3,4) mp(4,5) by simp_all
    next
      fix k assume k: "k \<in> set ids1"
      with mp(6)[of k] have e: "map_of (objects t1) k = map_of (objects t) k"
        "map_of (disappeared t1) k = map_of (disappeared t) k" by blast+
      show "map_of (disappeared t') k = bump (max_disappeared t) (map_of (disappeared t) k)"
        using t'(5) k e mp(5) by simp
      show "map_of (objects t') k =
            (if bump (max_disappeared t) (map_of (disappeared t) k) = None then None
             else map_of (objects t) k)"
        using t'(6) k e mp(5) by simp
    next
      fix k assume k: "k \<in> set (keys (objects t)) \<and> k \<notin> set ids1"
      with mp(7)[of k] have e: "map_of (disappeared t1) k = Some 0" "map_of (objects t1) k \<noteq> None"
        by blast+
      show "map_of (disappeared t') k = Some 0" using t'(5) k e by simp
      show "map_of (objects t') k \<noteq> None" using t'(6) k e by simp
    next
      fix k assume k: "k < next_object_id t \<and> k \<notin> set (keys (objects t))"
      then have n1: "k \<notin> set ids1" using mp(3) by auto
      from k mp(6)[of k] have "map_of (objects t1) k = map_of (objects t) k" by blast
      with k absent[of k] have "map_of (objects t1) k = None" by simp
      then show "map_of (objects t') k = None" using t'(6) by simp
    qed
    with s show ?thesis by blast
  qed
qed

lemma new_tracker_inv: "tracker_inv (new_tracker md)"
  by (simp add: tracker_inv_def new_tracker_def keys_def)

lemma tracker_run_ok:
  assumes "tracker_inv t"
  shows "\<exists>t'. tracker_run t dss = Inr t' \<and> tracker_inv t' \<and>
           next_object_id t \<le> next_object_id t' \<and> max_disappeared t' = max_disappeared t \<and>
           (\<forall>k. k < next_object_id t \<and> k \<notin> set (keys (objects t)) \<longrightarrow>
                k \<notin> set (keys (objects t')))"
  using assms
proof (induction dss arbitrary: t)
  case Nil
  then show ?case by simp
next
  case (Cons ds dss)
  from tracker_step_ok[OF Cons.prems, of ds] obtain t1 where
    t1: "tracker_step t ds = Inr t1" "step_post t ds t1" by blast
  then have p: "tracker_inv t1" "next_object_id t \<le> next_object_id t1"
    "max_disappeared t1 = max_disappeared t"
    "\<And>k. k < next_object_id t \<and> k \<notin> set (keys (objects t)) \<Longrightarrow> map_of (objects t1) k = None"
    unfolding step_post_def by blast+
  from Cons.IH[OF p(1)] obtain t' where
    t': "tracker_run t1 dss = Inr t'" "tracker_inv t'" "next_object_id t1 \<le> next_object_id t'"
      "max_disappeared t' = max_disappeared t1"
      "\<forall>k. k < next_object_id t1 \<and> k \<notin> set (keys (objects t1)) \<longrightarrow> k \<notin> set (keys (objects t'))"
    by blast
  have "tracker_run t (ds # dss) = Inr t'" using t1(1) t'(1) by simp
  moreover have "\<forall>k. k < next_object_id t \<and> k \<notin> set (keys (objects t)) \<longrightarrow>
                k \<notin> set (keys (objects t'))"
  proof (intro allI impI)
    fix k assume k: "k < next_object_id t \<and> k \<notin> set (keys (objects t))"
    then have "k \<notin> set (keys (objects t1))" using p(4)[of k] by (simp add: map_of_None_keys)
    moreover have "k < next_object_id t1" using k p(2) by simp
    ultimately show "k \<notin> set (keys (objects t'))" using t'(5) by blast
  qed
  ultimately show ?case using t'(2,3,4) p(2,3) by auto
qed

lemma unmatched_run_count:
  assumes "tracker_inv t" "map_of (disappeared t) k = Some d" "unmatched_run k t dss"
  shows "\<exists>t'. tracker_run t dss = Inr t' \<and>
           (int (d + length dss) \<le> max_disappeared t \<longrightarrow>
              map_of (disappeared t') k = Some (d + length dss) \<and>
              map_of (objects t') k = map_of (objects t) k) \<and>
           (int (d + length dss) > max_disappeared t \<and> dss \<noteq> [] \<longrightarrow>
              k \<notin> set (keys (objects t')))"
  using assms
proof (induction dss arbitrary: t d)
  case Nil
  then show ?case by simp
next
  case (Cons ds dss)
  from tracker_step_ok[OF Cons.prems(1), of ds] obtain t1 where
    t1: "tracker_step t ds = Inr t1" "step_post t ds t1" by blast
  from Cons.prems(3) t1(1) have u: "k \<in> set (unmatched_ids t ds)" "unmatched_run k t1 dss"
    by simp_all
  from t1(2) u(1) Cons.prems(2) have p: "tracker_inv t1" "max_disappeared t1 = max_disappeared t"
    "map_of (disappeared t1) k = bump (max_disappeared t) (Some d)"
    "map_of (objects t1) k = (if bump (max_disappeared t) (Some d) = None then None
             else map_of (objects t) k)"
    unfolding step_post_def by auto
  show ?case
  proof (cases "int (d + 1) > max_disappeared t")
    case True
    then have gone: "k \<notin> set (keys (objects t1))"
      using p(4) by (simp add: bump_def map_of_None_keys)
    have "dss = []"
    proof (cases dss)
      case Nil then show ?thesis .
    next
      case (Cons a list)
      with u(2) gone show ?thesis by simp
    qed
    then show ?thesis using t1(1) gone True by simp
  next
    case False
    then have d1: "map_of (disappeared t1) k = Some (d + 1)"
      "map_of (objects t1) k = map_of (objects t) k"
      using p(3,4) by (simp_all add: bump_def)
    from Cons.IH[OF p(1) d1(1) u(2)] obtain t' where
      t': "tracker_run t1 dss = Inr t'"
        "int (d + 1 + length dss) \<le> max_disappeared t1 \<longrightarrow>
              map_of (disappeared t') k = Some (d + 1 + length dss) \<and>
              map_of (objects t') k = map_of (objects t1) k"
        "int (d + 1 + length dss) > max_disappeared t1 \<and> dss \<noteq> [] \<longrightarrow>
              k \<notin> set (keys (objects t'))"
      by blast
    have r: "tracker_run t (ds # dss) = Inr t'" using t1(1) t'(1) by simp
    show ?thesis
    proof (cases "dss = []")
      case True
      then show ?thesis using r t'(1) d1 False by auto
    next
      case False
      then show ?thesis using r t'(2,3) p(2) d1(2) by (auto simp: add.commute add.left_commute)
    qed
  qed
qed

lemma best_match_loop_dist:
  assumes "best_match_loop t c ids (bm0, md0) = Inr (bm, md)"
    "\<forall>b. bm0 = Some b \<longrightarrow>
       (\<exists>ob. map_of (objects t) b = Some ob \<and> md0 = Fin (linalg_norm_diff c (get_center (det_bbox ob))))"
  shows "\<forall>b. bm = Some b \<longrightarrow>
       (\<exists>ob. map_of (objects t) b = Some ob \<and> md = Fin (linalg_norm_diff c (get_center (det_bbox ob))))"
  using assms
proof (induction ids arbitrary: bm0 md0)
  case Nil
  then show ?case by simp
next
  case (Cons a ids)
  show ?case
  proof (cases "map_of (objects t) a")
    case None
    with Cons.prems(1) show ?thesis by simp
  next
    case (Some ob)
    show ?thesis
    proof (cases "rlt (linalg_norm_diff c (get_center (det_bbox ob))) md0")
      case True
      with Cons.prems(1) Some have
        "best_match_loop t c ids (Some a, Fin (linalg_norm_diff c (get_center (det_bbox ob)))) = Inr (bm, md)"
        by (simp add: Let_def)
      from Cons.IH[OF this] Some show ?thesis by simp
    next
      case False
      with Cons.prems(1) Some have "best_match_loop t c ids (bm0, md0) = Inr (bm, md)"
        by (simp add: Let_def)
      from Cons.IH[OF this Cons.prems(2)] show ?thesis .
    qed
  qed
qed

lemma far_stays_unmatched:
  assumes "tracker_inv t" "distinct ids" "set ids \<subseteq> set (keys (objects t))" "k \<in> set ids"
    "\<forall>det \<in> set ds. far_from t k det" "match_detections ds t ids = Inr (t1, ids1)"
  shows "k \<in> set ids1"
  using assms
proof (induction ds arbitrary: t ids)
  case Nil
  then show ?case by simp
next
  case (Cons det ds)
  from best_match_loop_ok[OF Cons.prems(3), of "get_center (det_bbox det)" None PInf]
  obtain bm md where bm: "best_match_loop t (get_center (det_bbox det)) ids (None, PInf) = Inr (bm, md)"
    "bm = None \<or> (\<exists>b \<in> set ids. bm = Some b)" by blast
  from best_match_loop_dist[OF bm(1)] have dist: "\<forall>b. bm = Some b \<longrightarrow>
       (\<exists>ob. map_of (objects t) b = Some ob \<and>
             md = Fin (linalg_norm_diff (get_center (det_bbox det)) (get_center (det_bbox ob))))"
    by simp
  have kk: "k \<in> set (keys (objects t))" using Cons.prems(3,4) by auto
  have below: "k < next_object_id t"
    using Cons.prems(1) kk by (auto simp: tracker_inv_def list_all_iff)
  have far: "far_from t k det" using Cons.prems(5) by simp
  show ?case
  proof (cases "\<exists>b. bm = Some b \<and> flt md 100")
    case True
    then obtain b where b: "bm = Some b" "flt md 100" by blast
    with bm(2) have bin: "b \<in> set ids" by auto
    have bk: "b \<in> set (keys (objects t))" using bin Cons.prems(3) by auto
    from dist b(1) obtain ob where ob: "map_of (objects t) b = Some ob"
      "md = Fin (linalg_norm_diff (get_center (det_bbox det)) (get_center (det_bbox ob)))" by blast
    have neq: "b \<noteq> k"
    proof
      assume "b = k"
      with ob far b(2) show False by (simp add: far_from_def)
    qed
    let ?t' = "t\<lparr>objects := AList.update b det (objects t),
                  disappeared := AList.update b 0 (disappeared t)\<rparr>"
    have inv': "tracker_inv ?t'" using match_step_inv[OF Cons.prems(1) bk] .
    have rm: "set (remove1 b ids) = set ids - {b}" using Cons.prems(2) by simp
    have d': "distinct (remove1 b ids)" using Cons.prems(2) by simp
    have sub': "set (remove1 b ids) \<subseteq> set (keys (objects ?t'))"
      using Cons.prems(3) bk rm by (auto simp: keys_update)
    have kin': "k \<in> set (remove1 b ids)" using Cons.prems(4) neq rm by simp
    have far': "\<forall>det \<in> set ds. far_from ?t' k det"
      using Cons.prems(5) neq by (simp add: far_from_def update_conv')
    have run: "match_detections ds ?t' (remove1 b ids) = Inr (t1, ids1)"
      using Cons.prems(6) bm(1) b by simp
    from Cons.IH[OF inv' d' sub' kin' far' run] show ?thesis .
  next
    case False
    let ?t' = "fst (register t det)"
    have inv': "tracker_inv ?t'" using register_inv[OF Cons.prems(1)] .
    have sub': "set ids \<subseteq> set (keys (objects ?t'))"
      using Cons.prems(3) by (simp add: register_keys[OF Cons.prems(1)] subset_iff)
    have far': "\<forall>det \<in> set ds. far_from ?t' k det"
      using Cons.prems(5) below by (simp add: far_from_def update_conv' register_fields)
    have run: "match_detections ds ?t' ids = Inr (t1, ids1)"
      using Cons.prems(6) bm(1) False by (cases bm) auto
    from Cons.IH[OF inv' Cons.prems(2) sub' Cons.prems(4) far' run] show ?thesis .
  qed
qed

lemma far_unmatched:
  assumes "tracker_inv t" "k \<in> set (keys (objects t))" "\<forall>det \<in> set ds. far_from t k det"
  shows "k \<in> set (unmatched_ids t ds)"
proof -
  have d: "distinct (keys (objects t))" using assms(1) unfolding tracker_inv_def by blast
  have kk: "keys (disappeared t) = keys (objects t)" using assms(1) unfolding tracker_inv_def by simp
  have ne: "length (objects t) \<noteq> 0" using assms(2) by (auto simp: keys_def)
  show ?thesis
  proof (cases "length ds = 0")
    case True
    then show ?thesis using assms(2) kk by (simp add: unmatched_ids_def)
  next
    case False
    from match_detections_ok[OF assms(1) d subset_refl, of ds] obtain t1 ids1 where
      m: "match_detections ds t (keys (objects t)) = Inr (t1, ids1)" by blast
    from far_stays_unmatched[OF assms(1) d subset_refl assms(2,3) m]
    show ?thesis using False ne m by (simp add: unmatched_ids_def)
  qed
qed

subsection \<open>Multi-frame confirmation: helper lemmas\<close>


lemma same_cfg_refl: "same_cfg m m"
  by (simp add: same_cfg_def)

lemma same_cfg_trans: "same_cfg a b \<Longrightarrow> same_cfg b c \<Longrightarrow> same_cfg a c"
  by (simp add: same_cfg_def)

lemma should_confirm_cfg: "same_cfg m m' \<Longrightarrow> should_confirm m' h = should_confirm m h"
  by (simp add: same_cfg_def should_confirm_def)

lemma is_static_cfg: "same_cfg m m' \<Longrightarrow> is_static m' ps = is_static m ps"
  by (simp add: same_cfg_def is_static_def)

lemma advance_history_cfg:
  assumes "same_cfg m m'"
  shows "advance_history m' now h d = advance_history m now h d"
proof -
  from assms have e: "min_consecutive_frames m' = min_consecutive_frames m"
    "max_frame_gap m' = max_frame_gap m" "frame_count m' = frame_count m"
    by (simp_all add: same_cfg_def)
  show ?thesis
    unfolding advance_history_def is_static_cfg[OF assms] e ..
qed

lemma history_lookup_ok:
  assumes "0 \<le> min_consecutive_frames m + max_frame_gap m"
  shows "\<exists>m1. history_lookup m k = Inr (hist0 m k, m1) \<and> same_cfg m m1 \<and>
           map_of (obstacle_history m1) = (map_of (obstacle_history m))(k \<mapsto> hist0 m k) \<and>
           keys (obstacle_history m1) =
             (if k \<in> set (keys (obstacle_history m)) then keys (obstacle_history m)
              else keys (obstacle_history m) @ [k]) \<and>
           confirmed_obstacles m1 = confirmed_obstacles m"
proof (cases "map_of (obstacle_history m) k")
  case None
  then have "k \<notin> set (keys (obstacle_history m))"
    by (simp add: keys_def map_of_eq_None_iff)
  with None assms show ?thesis
    by (auto simp: history_lookup_def hist0_def get_or_def same_cfg_def update_conv' keys_def
        AList.update_keys)
next
  case (Some h)
  then have "k \<in> set (keys (obstacle_history m))"
    by (metis keys_def map_of_eq_None_iff option.distinct(1) set_map)
  with Some show ?thesis
    by (auto simp: history_lookup_def hist0_def get_or_def same_cfg_def fun_upd_idem)
qed

lemma is_static_ok: "2 \<le> length ps \<Longrightarrow> \<exists>b. is_static m ps = Inr b"
proof -
  assume a: "2 \<le> length ps"
  then have "[0 ..< length ps - 1] \<noteq> []" by simp
  then obtain x xs where "[0 ..< length ps - 1] = x # xs" by (cases "[0 ..< length ps - 1]") auto
  with a show ?thesis by (simp add: is_static_def Let_def)
qed

lemma advance_history_ok:
  "\<exists>h. advance_history m now h0 det = Inr h \<and>
     h_detections h = deque_append (nat (min_consecutive_frames m + max_frame_gap m)) (h_detections h0)
                   \<lparr>he_detection = det, he_frame = frame_count m, he_timestamp = now\<rparr> \<and>
     h_last_seen h = Some now \<and> h_confirmed h = h_confirmed h0 \<and>
     h_first_seen h = Some (get_or (h_first_seen h0) now)"
proof -
  let ?ps = "deque_append 10 (h_positions h0) (get_center (det_bbox det))"
  show ?thesis
  proof (cases "3 \<le> length ?ps")
    case True
    then have "2 \<le> length ?ps" by simp
    from is_static_ok[OF this, of m] obtain b where "is_static m ?ps = Inr b" by blast
    then show ?thesis using True
      by (auto simp: advance_history_def Let_def get_or_def split: option.splits)
  next
    case False
    then show ?thesis
      by (auto simp: advance_history_def Let_def get_or_def split: option.splits)
  qed
qed

lemma mark_confirmed_cases:
  "should_confirm m h \<Longrightarrow> mark_confirmed m h = h\<lparr>h_confirmed := True\<rparr>"
  "should_confirm m h \<Longrightarrow> h_confirmed h \<Longrightarrow> mark_confirmed m h = h"
  "\<not> should_confirm m h \<Longrightarrow> mark_confirmed m h = h"
  by (simp_all add: mark_confirmed_def)


lemma process_tracked_ok:
  assumes "0 \<le> min_consecutive_frames m + max_frame_gap m"
  shows "\<exists>m' h. advance_history m now (hist0 m k) det = Inr h \<and>
           process_tracked now (m, conf) (k, det) =
             Inr (m', conf @ (if should_confirm m h then [confirmed_entry now k h det] else [])) \<and>
           same_cfg m m' \<and>
           map_of (obstacle_history m') = (map_of (obstacle_history m))(k \<mapsto> mark_confirmed m h) \<and>
           map_of (confirmed_obstacles m') =
             (if should_confirm m h \<and> \<not> h_confirmed h then (map_of (confirmed_obstacles m))(k \<mapsto> det)
              else map_of (confirmed_obstacles m)) \<and>
           keys (obstacle_history m') =
             (if k \<in> set (keys (obstacle_history m)) then keys (obstacle_history m)
              else keys (obstacle_history m) @ [k])"
proof -
  from history_lookup_ok[OF assms, of k] obtain m1 where
    m1: "history_lookup m k = Inr (hist0 m k, m1)" "same_cfg m m1"
      "map_of (obstacle_history m1) = (map_of (obstacle_history m))(k \<mapsto> hist0 m k)"
      "keys (obstacle_history m1) =
             (if k \<in> set (keys (obstacle_history m)) then keys (obstacle_history m)
              else keys (obstacle_history m) @ [k])"
      "confirmed_obstacles m1 = confirmed_obstacles m" by blast
  from advance_history_ok[of m now "hist0 m k" det] obtain h where
    h: "advance_history m now (hist0 m k) det = Inr h" by blast
  have h1: "advance_history m1 now (hist0 m k) det = Inr h"
    using h advance_history_cfg[OF m1(2)] by simp
  have sc: "should_confirm m1 h = should_confirm m h" using should_confirm_cfg[OF m1(2)] .
  have kin: "k \<in> set (keys (obstacle_history m1))" using m1(4) by auto
  have cfg: "\<And>f g. same_cfg m (m1\<lparr>obstacle_history := f, confirmed_obstacles := g\<rparr>)"
    "\<And>f. same_cfg m (m1\<lparr>obstacle_history := f\<rparr>)"
    using m1(2) by (simp_all add: same_cfg_def)
  consider (a) "should_confirm m h" "\<not> h_confirmed h" | (b) "should_confirm m h" "h_confirmed h"
    | (c) "\<not> should_confirm m h" by blast
  then show ?thesis
  proof cases
    case a
    let ?m' = "m1\<lparr>obstacle_history := AList.update k (h\<lparr>h_confirmed := True\<rparr>) (obstacle_history m1),
                   confirmed_obstacles := AList.update k det (confirmed_obstacles m1)\<rparr>"
    have "process_tracked now (m, conf) (k, det) = Inr (?m', conf @ [confirmed_entry now k h det])"
      using a m1(1) h1 sc by (simp add: process_tracked_def)
    then show ?thesis using a h cfg m1(3,4,5) kin mark_confirmed_cases(1)[OF a(1)]
      by (intro exI[of _ ?m'] exI[of _ h]) (simp add: update_conv' keys_update)
  next
    case b
    let ?m' = "m1\<lparr>obstacle_history := AList.update k h (obstacle_history m1)\<rparr>"
    have "process_tracked now (m, conf) (k, det) = Inr (?m', conf @ [confirmed_entry now k h det])"
      using b m1(1) h1 sc by (simp add: process_tracked_def)
    then show ?thesis using b h cfg m1(3,4,5) kin mark_confirmed_cases(2)[OF b]
      by (intro exI[of _ ?m'] exI[of _ h]) (simp add: update_conv' keys_update)
  next
    case c
    let ?m' = "m1\<lparr>obstacle_history := AList.update k h (obstacle_history m1)\<rparr>"
    have "process_tracked now (m, conf) (k, det) = Inr (?m', conf)"
      using c m1(1) h1 sc by (simp add: process_tracked_def)
    then show ?thesis using c h cfg m1(3,4,5) kin mark_confirmed_cases(3)[OF c]
      by (intro exI[of _ ?m'] exI[of _ h]) (simp add: update_conv' keys_update)
  qed
qed

lemma mark_confirmed_cfg: "same_cfg m m' \<Longrightarrow> mark_confirmed m' h = mark_confirmed m h"
  by (simp add: mark_confirmed_def should_confirm_cfg)

lemma reported_append: "reported k (xs @ ys) \<longleftrightarrow> reported k xs \<or> reported k ys"
  by (simp add: reported_def)

lemma reported_entry: "reported k [confirmed_entry now k' h d] \<longleftrightarrow> k' = k"
  by (simp add: reported_def confirmed_entry_def)

lemma reported_Nil: "\<not> reported k []"
  by (simp add: reported_def)

lemma process_tracked_posts:
  assumes "0 \<le> min_consecutive_frames m + max_frame_gap m"
  shows "\<exists>m' conf'. process_tracked now (m, conf) (k, det) = Inr (m', conf') \<and> same_cfg m m' \<and>
           item_post m now conf m' conf' k det \<and>
           (\<forall>k'. k' \<noteq> k \<longrightarrow> other_post m conf m' conf' k') \<and>
           set (keys (obstacle_history m')) = insert k (set (keys (obstacle_history m))) \<and>
           (distinct (keys (obstacle_history m)) \<longrightarrow> distinct (keys (obstacle_history m')))"
proof -
  from process_tracked_ok[OF assms, of now k det conf] obtain m' h where
    r: "advance_history m now (hist0 m k) det = Inr h"
      "process_tracked now (m, conf) (k, det) =
             Inr (m', conf @ (if should_confirm m h then [confirmed_entry now k h det] else []))"
      "same_cfg m m'"
      "map_of (obstacle_history m') = (map_of (obstacle_history m))(k \<mapsto> mark_confirmed m h)"
      "map_of (confirmed_obstacles m') =
             (if should_confirm m h \<and> \<not> h_confirmed h then (map_of (confirmed_obstacles m))(k \<mapsto> det)
              else map_of (confirmed_obstacles m))"
      "keys (obstacle_history m') =
             (if k \<in> set (keys (obstacle_history m)) then keys (obstacle_history m)
              else keys (obstacle_history m) @ [k])" by blast
  let ?conf' = "conf @ (if should_confirm m h then [confirmed_entry now k h det] else [])"
  have ip: "item_post m now conf m' ?conf' k det"
    unfolding item_post_def using r(1,4,5)
    by (intro exI[of _ h]) (simp add: reported_append reported_entry reported_Nil)
  have op: "\<forall>k'. k' \<noteq> k \<longrightarrow> other_post m conf m' ?conf' k'"
    unfolding other_post_def using r(4,5)
    by (simp add: reported_append reported_entry reported_Nil)
  have ks: "set (keys (obstacle_history m')) = insert k (set (keys (obstacle_history m)))"
    using r(6) by auto
  have ds: "distinct (keys (obstacle_history m)) \<longrightarrow> distinct (keys (obstacle_history m'))"
    using r(6) by auto
  show ?thesis using r(2,3) ip op ks ds by blast
qed

lemma hist0_eq: "map_of (obstacle_history m1) k = map_of (obstacle_history m) k \<Longrightarrow> hist0 m1 k = hist0 m k"
  by (simp add: hist0_def)

lemma item_post_shift:
  assumes "same_cfg m m1" "other_post m conf m1 conf1 k" "item_post m1 now conf1 m2 conf2 k det"
  shows "item_post m now conf m2 conf2 k det"
proof -
  from assms(3) obtain h where
    h: "advance_history m1 now (hist0 m1 k) det = Inr h"
      "map_of (obstacle_history m2) k = Some (mark_confirmed m1 h)"
      "map_of (confirmed_obstacles m2) k =
            (if should_confirm m1 h \<and> \<not> h_confirmed h then Some det
             else map_of (confirmed_obstacles m1) k)"
      "reported k conf2 \<longleftrightarrow> reported k conf1 \<or> should_confirm m1 h"
    unfolding item_post_def by blast
  from assms(2) have o: "map_of (obstacle_history m1) k = map_of (obstacle_history m) k"
    "map_of (confirmed_obstacles m1) k = map_of (confirmed_obstacles m) k"
    "reported k conf1 \<longleftrightarrow> reported k conf"
    unfolding other_post_def by blast+
  show ?thesis
    unfolding item_post_def
    using h o hist0_eq[OF o(1)] advance_history_cfg[OF assms(1)] should_confirm_cfg[OF assms(1)]
      mark_confirmed_cfg[OF assms(1)]
    by (intro exI[of _ h]) simp
qed

lemma other_post_trans:
  "other_post m conf m1 conf1 k \<Longrightarrow> other_post m1 conf1 m2 conf2 k \<Longrightarrow> other_post m conf m2 conf2 k"
  by (simp add: other_post_def)

lemma item_post_then_other:
  assumes "item_post m now conf m1 conf1 k det" "other_post m1 conf1 m2 conf2 k"
  shows "item_post m now conf m2 conf2 k det"
  using assms unfolding item_post_def other_post_def by auto

lemma process_all_ok:
  assumes "0 \<le> min_consecutive_frames m + max_frame_gap m" "distinct (keys items)"
  shows "\<exists>m' conf'. process_all now items (m, conf) = Inr (m', conf') \<and> same_cfg m m' \<and>
           (\<forall>k det. (k, det) \<in> set items \<longrightarrow> item_post m now conf m' conf' k det) \<and>
           (\<forall>k. k \<notin> set (keys items) \<longrightarrow> other_post m conf m' conf' k) \<and>
           set (keys (obstacle_history m')) = set (keys (obstacle_history m)) \<union> set (keys items) \<and>
           (distinct (keys (obstacle_history m)) \<longrightarrow> distinct (keys (obstacle_history m')))"
  using assms
proof (induction items arbitrary: m conf)
  case Nil
  then show ?case by (simp add: same_cfg_refl other_post_def keys_def)
next
  case (Cons item items)
  obtain k0 d0 where item: "item = (k0, d0)" by (cases item)
  from Cons.prems(2) item have dk: "distinct (keys items)" "k0 \<notin> set (keys items)"
    by (simp_all add: keys_def)
  from process_tracked_posts[OF Cons.prems(1), of now conf k0 d0] obtain m1 conf1 where
    s1: "process_tracked now (m, conf) (k0, d0) = Inr (m1, conf1)" "same_cfg m m1"
      "item_post m now conf m1 conf1 k0 d0"
      "\<forall>k'. k' \<noteq> k0 \<longrightarrow> other_post m conf m1 conf1 k'"
      "set (keys (obstacle_history m1)) = insert k0 (set (keys (obstacle_history m)))"
      "distinct (keys (obstacle_history m)) \<longrightarrow> distinct (keys (obstacle_history m1))"
    by blast
  have c1: "0 \<le> min_consecutive_frames m1 + max_frame_gap m1"
    using Cons.prems(1) s1(2) by (simp add: same_cfg_def)
  from Cons.IH[OF c1 dk(1), of conf1] obtain m2 conf2 where
    s2: "process_all now items (m1, conf1) = Inr (m2, conf2)" "same_cfg m1 m2"
      "\<forall>k det. (k, det) \<in> set items \<longrightarrow> item_post m1 now conf1 m2 conf2 k det"
      "\<forall>k. k \<notin> set (keys items) \<longrightarrow> other_post m1 conf1 m2 conf2 k"
      "set (keys (obstacle_history m2)) = set (keys (obstacle_history m1)) \<union> set (keys items)"
      "distinct (keys (obstacle_history m1)) \<longrightarrow> distinct (keys (obstacle_history m2))"
    by blast
  have run: "process_all now (item # items) (m, conf) = Inr (m2, conf2)"
    using item s1(1) s2(1) by simp
  have cfg: "same_cfg m m2" using same_cfg_trans[OF s1(2) s2(2)] .
  have items: "\<forall>k det. (k, det) \<in> set (item # items) \<longrightarrow> item_post m now conf m2 conf2 k det"
  proof (intro allI impI)
    fix k det assume kd: "(k, det) \<in> set (item # items)"
    show "item_post m now conf m2 conf2 k det"
    proof (cases "(k, det) = (k0, d0)")
      case True
      then have "other_post m1 conf1 m2 conf2 k" using s2(4) dk(2) by simp
      with s1(3) True show ?thesis using item_post_then_other by auto
    next
      case False
      with kd item have in_items: "(k, det) \<in> set items" by auto
      then have "k \<in> set (keys items)" by (force simp: keys_def)
      with dk(2) have "k \<noteq> k0" by auto
      with s1(4) have "other_post m conf m1 conf1 k" by simp
      with in_items s2(3) s1(2) show ?thesis using item_post_shift by blast
    qed
  qed
  have others: "\<forall>k. k \<notin> set (keys (item # items)) \<longrightarrow> other_post m conf m2 conf2 k"
  proof (intro allI impI)
    fix k assume "k \<notin> set (keys (item # items))"
    then have "k \<noteq> k0" "k \<notin> set (keys items)" using item by (simp_all add: keys_def)
    then show "other_post m conf m2 conf2 k" using s1(4) s2(4) other_post_trans by blast
  qed
  have ks: "set (keys (obstacle_history m2)) = set (keys (obstacle_history m)) \<union> set (keys (item # items))"
    using s1(5) s2(5) item by (auto simp: keys_def)
  have ds: "distinct (keys (obstacle_history m)) \<longrightarrow> distinct (keys (obstacle_history m2))"
    using s1(6) s2(6) by blast
  show ?case using run cfg items others ks ds by blast
qed

lemma fold_remove_obstacle:
  "same_cfg m (fold remove_obstacle ks m) \<and>
   map_of (obstacle_history (fold remove_obstacle ks m)) k =
     (if k \<in> set ks then None else map_of (obstacle_history m) k) \<and>
   map_of (confirmed_obstacles (fold remove_obstacle ks m)) k =
     (if k \<in> set ks then None else map_of (confirmed_obstacles m) k) \<and>
   (distinct (keys (obstacle_history m)) \<longrightarrow>
      distinct (keys (obstacle_history (fold remove_obstacle ks m))))"
proof (induction ks arbitrary: m)
  case Nil
  then show ?case by (simp add: same_cfg_refl)
next
  case (Cons a ks)
  have c: "same_cfg m (remove_obstacle a m)" by (simp add: same_cfg_def remove_obstacle_def)
  have d: "distinct (keys (obstacle_history m)) \<longrightarrow> distinct (keys (obstacle_history (remove_obstacle a m)))"
    by (simp add: remove_obstacle_def keys_def distinct_delete)
  from Cons.IH[of "remove_obstacle a m"] c d show ?case
    by (auto simp: remove_obstacle_def delete_conv' intro: same_cfg_trans)
qed

lemma cleanup_ok:
  assumes "distinct (keys (obstacle_history m))"
  shows "same_cfg m (cleanup_old_obstacles m now T) \<and>
         map_of (obstacle_history (cleanup_old_obstacles m now T)) k =
           (case map_of (obstacle_history m) k of
              None \<Rightarrow> None | Some h \<Rightarrow> if is_old now T h then None else Some h) \<and>
         map_of (confirmed_obstacles (cleanup_old_obstacles m now T)) k =
           (if (\<exists>h. map_of (obstacle_history m) k = Some h \<and> is_old now T h) then None
            else map_of (confirmed_obstacles m) k) \<and>
         distinct (keys (obstacle_history (cleanup_old_obstacles m now T)))"
proof -
  let ?ks = "map fst (filter (\<lambda>(obj_id, history). is_old now T history) (obstacle_history m))"
  have d: "distinct (map fst (obstacle_history m))" using assms by (simp add: keys_def)
  have mem: "k \<in> set ?ks \<longleftrightarrow> (\<exists>h. map_of (obstacle_history m) k = Some h \<and> is_old now T h)"
    using map_of_eq_Some_iff[OF d] by force
  show ?thesis
    unfolding cleanup_old_obstacles_def Let_def
    using fold_remove_obstacle[of m ?ks k] mem assms
    by (auto split: option.splits)
qed

lemma mfc_update_ok:
  assumes "mfc_inv m" "0 \<le> min_consecutive_frames m + max_frame_gap m" "distinct (keys tracked)"
  shows "\<exists>conf m'. mfc_update m now dets tracked = Inr (conf, m') \<and> mfc_inv m' \<and>
           same_cfg (tick m) m' \<and>
           (\<forall>k det. (k, det) \<in> set tracked \<longrightarrow>
              (\<exists>h. advance_history (tick m) now (hist0 m k) det = Inr h \<and>
                   map_of (obstacle_history m') k = Some (mark_confirmed m h) \<and>
                   map_of (confirmed_obstacles m') k =
                     (if should_confirm m h \<and> \<not> h_confirmed h then Some det
                      else map_of (confirmed_obstacles m) k) \<and>
                   (reported k conf \<longleftrightarrow> should_confirm m h))) \<and>
           (\<forall>k. k \<notin> set (keys tracked) \<longrightarrow>
              \<not> reported k conf \<and>
              map_of (obstacle_history m') k =
                (case map_of (obstacle_history m) k of
                   None \<Rightarrow> None | Some h \<Rightarrow> if is_old now 10 h then None else Some h) \<and>
              map_of (confirmed_obstacles m') k =
                (if (\<exists>h. map_of (obstacle_history m) k = Some h \<and> is_old now 10 h) then None
                 else map_of (confirmed_obstacles m) k))"
proof -
  let ?m0 = "tick m"
  have c0: "0 \<le> min_consecutive_frames ?m0 + max_frame_gap ?m0" using assms(2) by (simp add: tick_def)
  have e0: "obstacle_history ?m0 = obstacle_history m" "confirmed_obstacles ?m0 = confirmed_obstacles m"
    by (simp_all add: tick_def)
  have sc0: "\<And>h. should_confirm ?m0 h = should_confirm m h" by (simp add: should_confirm_def tick_def)
  have mc0: "\<And>h. mark_confirmed ?m0 h = mark_confirmed m h" by (simp add: mark_confirmed_def sc0)
  have h0: "\<And>k. hist0 ?m0 k = hist0 m k" by (simp add: hist0_def e0)
  from process_all_ok[OF c0 assms(3), of now "[]"] obtain m1 conf where
    p: "process_all now tracked (?m0, []) = Inr (m1, conf)" "same_cfg ?m0 m1"
      "\<forall>k det. (k, det) \<in> set tracked \<longrightarrow> item_post ?m0 now [] m1 conf k det"
      "\<forall>k. k \<notin> set (keys tracked) \<longrightarrow> other_post ?m0 [] m1 conf k"
      "distinct (keys (obstacle_history ?m0)) \<longrightarrow> distinct (keys (obstacle_history m1))"
    by blast
  have d1: "distinct (keys (obstacle_history m1))" using p(5) assms(1) by (simp add: e0 mfc_inv_def)
  let ?m' = "cleanup_old_obstacles m1 now 10"
  note cl = cleanup_ok[OF d1, of now 10]
  have run: "mfc_update m now dets tracked = Inr (conf, ?m')"
    using p(1) by (simp add: mfc_update_def tick_def)
  have inv': "mfc_inv ?m'" using cl by (simp add: mfc_inv_def)
  have cfg': "same_cfg ?m0 ?m'" using same_cfg_trans[OF p(2)] cl by blast
  have tr: "\<forall>k det. (k, det) \<in> set tracked \<longrightarrow>
              (\<exists>h. advance_history ?m0 now (hist0 m k) det = Inr h \<and>
                   map_of (obstacle_history ?m') k = Some (mark_confirmed m h) \<and>
                   map_of (confirmed_obstacles ?m') k =
                     (if should_confirm m h \<and> \<not> h_confirmed h then Some det
                      else map_of (confirmed_obstacles m) k) \<and>
                   (reported k conf \<longleftrightarrow> should_confirm m h))"
  proof (intro allI impI)
    fix k det assume "(k, det) \<in> set tracked"
    with p(3) obtain h where
      h: "advance_history ?m0 now (hist0 ?m0 k) det = Inr h"
        "map_of (obstacle_history m1) k = Some (mark_confirmed ?m0 h)"
        "map_of (confirmed_obstacles m1) k =
            (if should_confirm ?m0 h \<and> \<not> h_confirmed h then Some det
             else map_of (confirmed_obstacles ?m0) k)"
        "reported k conf \<longleftrightarrow> reported k [] \<or> should_confirm ?m0 h"
      unfolding item_post_def by blast
    from advance_history_ok[of ?m0 now "hist0 ?m0 k" det] h(1)
    have ls: "h_last_seen h = Some now" by auto
    have notold: "\<not> is_old now 10 (mark_confirmed m h)"
      using ls by (simp add: is_old_def mark_confirmed_def)
    have "map_of (obstacle_history ?m') k = Some (mark_confirmed m h)"
      using cl[of k] h(2) notold by (simp add: mc0)
    moreover have "map_of (confirmed_obstacles ?m') k =
                     (if should_confirm m h \<and> \<not> h_confirmed h then Some det
                      else map_of (confirmed_obstacles m) k)"
      using cl[of k] h(2,3) notold by (simp add: mc0 sc0 e0)
    ultimately show "\<exists>h. advance_history ?m0 now (hist0 m k) det = Inr h \<and>
                   map_of (obstacle_history ?m') k = Some (mark_confirmed m h) \<and>
                   map_of (confirmed_obstacles ?m') k =
                     (if should_confirm m h \<and> \<not> h_confirmed h then Some det
                      else map_of (confirmed_obstacles m) k) \<and>
                   (reported k conf \<longleftrightarrow> should_confirm m h)"
      using h(1,4) by (intro exI[of _ h]) (simp add: h0 sc0 reported_Nil)
  qed
  have ot: "\<forall>k. k \<notin> set (keys tracked) \<longrightarrow>
              \<not> reported k conf \<and>
              map_of (obstacle_history ?m') k =
                (case map_of (obstacle_history m) k of
                   None \<Rightarrow> None | Some h \<Rightarrow> if is_old now 10 h then None else Some h) \<and>
              map_of (confirmed_obstacles ?m') k =
                (if (\<exists>h. map_of (obstacle_history m) k = Some h \<and> is_old now 10 h) then None
                 else map_of (confirmed_obstacles m) k)"
  proof (intro allI impI)
    fix k assume "k \<notin> set (keys tracked)"
    with p(4) have o: "map_of (obstacle_history m1) k = map_of (obstacle_history m) k"
      "map_of (confirmed_obstacles m1) k = map_of (confirmed_obstacles m) k"
      "reported k conf \<longleftrightarrow> reported k []"
      unfolding other_post_def by (simp_all add: e0)
    show "\<not> reported k conf \<and>
              map_of (obstacle_history ?m') k =
                (case map_of (obstacle_history m) k of
                   None \<Rightarrow> None | Some h \<Rightarrow> if is_old now 10 h then None else Some h) \<and>
              map_of (confirmed_obstacles ?m') k =
                (if (\<exists>h. map_of (obstacle_history m) k = Some h \<and> is_old now 10 h) then None
                 else map_of (confirmed_obstacles m) k)"
      using cl[of k] o by (auto simp: reported_Nil)
  qed
  show ?thesis using run inv' cfg' tr ot by blast
qed

lemma gaps_ok_nth:
  "gaps_ok g fs \<longleftrightarrow> (\<forall>i. Suc i < length fs \<longrightarrow> int (fs ! Suc i) - int (fs ! i) - 1 \<le> g)"
proof (induction g fs rule: gaps_ok.induct)
  case (1 g a b rest)
  have "(\<forall>i. Suc i < length (a # b # rest) \<longrightarrow>
            int ((a # b # rest) ! Suc i) - int ((a # b # rest) ! i) - 1 \<le> g) \<longleftrightarrow>
        (int b - int a - 1 \<le> g \<and>
         (\<forall>i. Suc i < length (b # rest) \<longrightarrow> int ((b # rest) ! Suc i) - int ((b # rest) ! i) - 1 \<le> g))"
    (is "?L \<longleftrightarrow> ?R")
  proof
    assume l: ?L
    have "int b - int a - 1 \<le> g" using l[rule_format, of 0] by simp
    moreover have "\<forall>i. Suc i < length (b # rest) \<longrightarrow> int ((b # rest) ! Suc i) - int ((b # rest) ! i) - 1 \<le> g"
    proof (intro allI impI)
      fix i assume "Suc i < length (b # rest)"
      then show "int ((b # rest) ! Suc i) - int ((b # rest) ! i) - 1 \<le> g"
        using l[rule_format, of "Suc i"] by simp
    qed
    ultimately show ?R by blast
  next
    assume r: ?R
    show ?L
    proof (intro allI impI)
      fix i assume i: "Suc i < length (a # b # rest)"
      show "int ((a # b # rest) ! Suc i) - int ((a # b # rest) ! i) - 1 \<le> g"
      proof (cases i)
        case 0
        then show ?thesis using r by simp
      next
        case (Suc j)
        then show ?thesis using r i by simp
      qed
    qed
  qed
  with 1 show ?case by simp
qed simp_all

lemma should_confirm_spec:
  assumes "0 < min_consecutive_frames m"
  shows "should_confirm m h = spec_confirmed m h"
proof -
  let ?fs = "map he_frame (take_last (nat (min_consecutive_frames m)) (h_detections h))"
  have sl: "py_slice_from (- min_consecutive_frames m) (h_detections h) =
            take_last (nat (min_consecutive_frames m)) (h_detections h)"
    using assms by (simp add: py_slice_from_def take_last_def)
  have "list_all (\<lambda>gap. gap \<le> max_frame_gap m)
          (map (\<lambda>i. int (?fs ! (i + 1)) - int (?fs ! i) - 1) [0 ..< length ?fs - 1]) =
        gaps_ok (max_frame_gap m) ?fs"
    unfolding gaps_ok_nth by (auto simp: list_all_iff)
  then show ?thesis
    unfolding should_confirm_def spec_confirmed_def Let_def sl by auto
qed

lemma gaps_ok_upt: "0 \<le> g \<Longrightarrow> gaps_ok g [a ..< b]"
  unfolding gaps_ok_nth by auto

lemma spec_confirmed_consecutive:
  assumes "0 \<le> max_frame_gap m" "map he_frame (h_detections h) = [a ..< b]"
  shows "spec_confirmed m h \<longleftrightarrow> min_consecutive_frames m \<le> int (length (h_detections h))"
proof -
  have "map he_frame (take_last (nat (min_consecutive_frames m)) (h_detections h)) =
        drop (length (h_detections h) - nat (min_consecutive_frames m)) [a ..< b]"
    unfolding take_last_def drop_map[symmetric] assms(2) ..
  then show ?thesis
    using gaps_ok_upt[OF assms(1)] by (simp add: spec_confirmed_def drop_upt)
qed

lemma step_consec:
  assumes inv: "mfc_inv m" and mn: "0 < min_consecutive_frames m" and gp: "0 \<le> max_frame_gap m"
    and dk: "distinct (keys tracked)" and kin: "k \<in> set (keys tracked)"
    and fr: "map he_frame (h_detections (hist0 m k)) = [Suc (frame_count m) - j ..< Suc (frame_count m)]"
    and jf: "j \<le> frame_count m" and jm: "j < nat (min_consecutive_frames m + max_frame_gap m)"
  shows "\<exists>conf m'. mfc_update m now dets tracked = Inr (conf, m') \<and> mfc_inv m' \<and>
           min_consecutive_frames m' = min_consecutive_frames m \<and>
           max_frame_gap m' = max_frame_gap m \<and>
           frame_count m' = Suc (frame_count m) \<and>
           map he_frame (h_detections (hist0 m' k)) =
             [Suc (frame_count m') - Suc j ..< Suc (frame_count m')] \<and>
           (reported k conf \<longleftrightarrow> min_consecutive_frames m \<le> int (Suc j))"
proof -
  from kin obtain det where det: "(k, det) \<in> set tracked" by (auto simp: keys_def)
  have c: "0 \<le> min_consecutive_frames m + max_frame_gap m" using mn gp by simp
  from mfc_update_ok[OF inv c dk, of now dets] obtain conf m' where
    u: "mfc_update m now dets tracked = Inr (conf, m')" "mfc_inv m'" "same_cfg (tick m) m'"
      "\<forall>k det. (k, det) \<in> set tracked \<longrightarrow>
              (\<exists>h. advance_history (tick m) now (hist0 m k) det = Inr h \<and>
                   map_of (obstacle_history m') k = Some (mark_confirmed m h) \<and>
                   map_of (confirmed_obstacles m') k =
                     (if should_confirm m h \<and> \<not> h_confirmed h then Some det
                      else map_of (confirmed_obstacles m) k) \<and>
                   (reported k conf \<longleftrightarrow> should_confirm m h))"
    by blast
  from u(4) det obtain h where
    h: "advance_history (tick m) now (hist0 m k) det = Inr h"
      "map_of (obstacle_history m') k = Some (mark_confirmed m h)"
      "reported k conf \<longleftrightarrow> should_confirm m h" by blast
  from advance_history_ok[of "tick m" now "hist0 m k" det] h(1)
  have hd: "h_detections h =
      deque_append (nat (min_consecutive_frames (tick m) + max_frame_gap (tick m)))
        (h_detections (hist0 m k))
        \<lparr>he_detection = det, he_frame = frame_count (tick m), he_timestamp = now\<rparr>"
    by auto
  have len: "length (h_detections (hist0 m k)) = j"
  proof -
    have "length (map he_frame (h_detections (hist0 m k))) =
          Suc (frame_count m) - (Suc (frame_count m) - j)"
      unfolding fr by (rule length_upt)
    then show ?thesis using jf by simp
  qed
  have hd': "h_detections h = h_detections (hist0 m k) @
        [\<lparr>he_detection = det, he_frame = Suc (frame_count m), he_timestamp = now\<rparr>]"
    unfolding hd using len jm by (simp add: deque_append_def tick_def Let_def)
  have app: "[Suc (frame_count m) - j ..< Suc (Suc (frame_count m))] =
      [Suc (frame_count m) - j ..< Suc (frame_count m)] @ [Suc (frame_count m)]"
    by (rule upt_Suc_append) simp
  have frames: "map he_frame (h_detections h) = [Suc (frame_count m) - j ..< Suc (Suc (frame_count m))]"
    unfolding hd' app using fr by (simp del: upt_Suc)
  have cfg: "min_consecutive_frames m' = min_consecutive_frames m"
    "max_frame_gap m' = max_frame_gap m" "frame_count m' = Suc (frame_count m)"
    using u(3) by (simp_all add: same_cfg_def tick_def)
  have h0': "h_detections (hist0 m' k) = h_detections h"
    using h(2) by (simp add: hist0_def get_or_def mark_confirmed_def)
  have "should_confirm m h \<longleftrightarrow> min_consecutive_frames m \<le> int (Suc j)"
    using should_confirm_spec[OF mn, of h] spec_confirmed_consecutive[OF gp frames]
    by (simp add: hd' len)
  then show ?thesis
    using u(1,2) cfg h(3) h0' frames jf by (auto simp: Suc_diff_le)
qed

lemma run_consec:
  assumes "mfc_inv m" "0 < min_consecutive_frames m" "0 \<le> max_frame_gap m"
    "\<forall>(now, tracked) \<in> set inputs. distinct (keys tracked) \<and> k \<in> set (keys tracked)"
    "map he_frame (h_detections (hist0 m k)) = [Suc (frame_count m) - j ..< Suc (frame_count m)]"
    "j \<le> frame_count m" "j + length inputs \<le> nat (min_consecutive_frames m + max_frame_gap m)"
  shows "\<exists>outs m'. mfc_updates m inputs = Inr (outs, m') \<and>
           map (reported k) outs =
             map (\<lambda>i. min_consecutive_frames m \<le> int (Suc (j + i))) [0 ..< length inputs]"
  using assms
proof (induction inputs arbitrary: m j)
  case Nil
  then show ?case by simp
next
  case (Cons inp inputs)
  obtain now tracked where inp: "inp = (now, tracked)" by (cases inp)
  from Cons.prems(4) inp have tr: "distinct (keys tracked)" "k \<in> set (keys tracked)"
    and rest: "\<forall>(now, tracked) \<in> set inputs. distinct (keys tracked) \<and> k \<in> set (keys tracked)"
    by auto
  have jm: "j < nat (min_consecutive_frames m + max_frame_gap m)" using Cons.prems(7) by simp
  from step_consec[OF Cons.prems(1,2,3) tr Cons.prems(5,6) jm, of now "map snd tracked"]
  obtain conf m1 where
    s: "mfc_update m now (map snd tracked) tracked = Inr (conf, m1)" "mfc_inv m1"
      "min_consecutive_frames m1 = min_consecutive_frames m"
      "max_frame_gap m1 = max_frame_gap m"
      "frame_count m1 = Suc (frame_count m)"
      "map he_frame (h_detections (hist0 m1 k)) =
             [Suc (frame_count m1) - Suc j ..< Suc (frame_count m1)]"
      "reported k conf \<longleftrightarrow> min_consecutive_frames m \<le> int (Suc j)"
    by blast
  have p2: "0 < min_consecutive_frames m1" "0 \<le> max_frame_gap m1"
    using Cons.prems(2,3) s(3,4) by simp_all
  have p6: "Suc j \<le> frame_count m1" using Cons.prems(6) s(5) by simp
  have p7: "Suc j + length inputs \<le> nat (min_consecutive_frames m1 + max_frame_gap m1)"
    using Cons.prems(7) s(3,4) by simp
  from Cons.IH[OF s(2) p2 rest s(6) p6 p7] obtain outs m' where
    r: "mfc_updates m1 inputs = Inr (outs, m')"
      "map (reported k) outs =
             map (\<lambda>i. min_consecutive_frames m1 \<le> int (Suc (Suc j + i))) [0 ..< length inputs]"
    by blast
  have run: "mfc_updates m (inp # inputs) = Inr (conf # outs, m')"
    using inp s(1) r(1) by simp
  have "[0 ..< length (inp # inputs)] = 0 # map Suc [0 ..< length inputs]"
    by (simp add: upt_conv_Cons map_Suc_upt del: upt_Suc)
  then have "map (\<lambda>i. min_consecutive_frames m \<le> int (Suc (j + i))) [0 ..< length (inp # inputs)] =
        (min_consecutive_frames m \<le> int (Suc j)) #
        map (\<lambda>i. min_consecutive_frames m \<le> int (Suc (Suc j + i))) [0 ..< length inputs]"
    by (simp add: comp_def)
  then show ?case using run r(2) s(3,7) by simp
qed

subsection \<open>The tracker and the confirmation stage: main results\<close>


lemma inv_key_disappeared:
  assumes "tracker_inv t" "map_of (disappeared t) k = Some d"
  shows "k \<in> set (keys (objects t))"
proof -
  have "k \<in> set (keys (disappeared t))"
    using assms(2) map_of_None_keys[of "disappeared t" k] by auto
  then show ?thesis using assms(1) by (simp add: tracker_inv_def)
qed

lemma tracker_step_facts:
  assumes "tracker_inv t"
  shows "\<exists>t'. tracker_step t ds = Inr t' \<and> tracker_inv t' \<and>
           next_object_id t \<le> next_object_id t' \<and>
           (\<forall>k. k < next_object_id t \<and> k \<notin> set (keys (objects t)) \<longrightarrow> k \<notin> set (keys (objects t'))) \<and>
           (\<forall>k. k \<in> set (keys (objects t')) \<longrightarrow>
                k \<in> set (keys (objects t)) \<or> (next_object_id t \<le> k \<and> k < next_object_id t')) \<and>
           (\<forall>k d. k \<in> set (unmatched_ids t ds) \<and> map_of (disappeared t) k = Some d \<longrightarrow>
                (if int (d + 1) > max_disappeared t
                 then k \<notin> set (keys (objects t')) \<and> map_of (disappeared t') k = None
                 else map_of (disappeared t') k = Some (d + 1) \<and>
                      map_of (objects t') k = map_of (objects t) k \<and>
                      k \<in> set (keys (objects t')))) \<and>
           (\<forall>k. k \<in> set (keys (objects t)) \<and> k \<notin> set (unmatched_ids t ds) \<longrightarrow>
                map_of (disappeared t') k = Some 0 \<and> k \<in> set (keys (objects t')))"
proof -
  from tracker_step_ok[OF assms, of ds] obtain t' where
    t': "tracker_step t ds = Inr t'" "step_post t ds t'" by blast
  then have p: "tracker_inv t'" "next_object_id t \<le> next_object_id t'"
    "\<And>k. k \<in> set (unmatched_ids t ds) \<Longrightarrow>
          map_of (disappeared t') k = bump (max_disappeared t) (map_of (disappeared t) k) \<and>
          map_of (objects t') k =
            (if bump (max_disappeared t) (map_of (disappeared t) k) = None then None
             else map_of (objects t) k)"
    "\<And>k. k \<in> set (keys (objects t)) \<and> k \<notin> set (unmatched_ids t ds) \<Longrightarrow>
          map_of (disappeared t') k = Some 0 \<and> map_of (objects t') k \<noteq> None"
    "\<And>k. k < next_object_id t \<and> k \<notin> set (keys (objects t)) \<Longrightarrow> map_of (objects t') k = None"
    unfolding step_post_def by blast+
  have a: "\<forall>k. k < next_object_id t \<and> k \<notin> set (keys (objects t)) \<longrightarrow> k \<notin> set (keys (objects t'))"
    using p(5) by (simp add: map_of_None_keys)
  have b: "\<forall>k. k \<in> set (keys (objects t')) \<longrightarrow>
                k \<in> set (keys (objects t)) \<or> (next_object_id t \<le> k \<and> k < next_object_id t')"
  proof (intro allI impI)
    fix k assume k: "k \<in> set (keys (objects t'))"
    then have "k < next_object_id t'" using p(1) by (auto simp: tracker_inv_def list_all_iff)
    then show "k \<in> set (keys (objects t)) \<or> (next_object_id t \<le> k \<and> k < next_object_id t')"
      using a k by (cases "k < next_object_id t") auto
  qed
  have c: "\<forall>k d. k \<in> set (unmatched_ids t ds) \<and> map_of (disappeared t) k = Some d \<longrightarrow>
                (if int (d + 1) > max_disappeared t
                 then k \<notin> set (keys (objects t')) \<and> map_of (disappeared t') k = None
                 else map_of (disappeared t') k = Some (d + 1) \<and>
                      map_of (objects t') k = map_of (objects t) k \<and>
                      k \<in> set (keys (objects t')))"
  proof (intro allI impI)
    fix k d assume kd: "k \<in> set (unmatched_ids t ds) \<and> map_of (disappeared t) k = Some d"
    then have ko: "map_of (objects t) k \<noteq> None"
      using inv_key_disappeared[OF assms, of k d] by (simp add: map_of_None_keys)
    from kd p(3)[of k] show "if int (d + 1) > max_disappeared t
                 then k \<notin> set (keys (objects t')) \<and> map_of (disappeared t') k = None
                 else map_of (disappeared t') k = Some (d + 1) \<and>
                      map_of (objects t') k = map_of (objects t) k \<and>
                      k \<in> set (keys (objects t'))"
      using ko map_of_None_keys[of "objects t'" k] by (auto simp: bump_def)
  qed
  have d: "\<forall>k. k \<in> set (keys (objects t)) \<and> k \<notin> set (unmatched_ids t ds) \<longrightarrow>
                map_of (disappeared t') k = Some 0 \<and> k \<in> set (keys (objects t'))"
    using p(4) by (simp add: map_of_None_keys)
  show ?thesis using t'(1) p(1,2) a b c d by blast
qed

text \<open>
  C7. The tracker hands out the ids 0, 1, 2, ... in the order of registration and never
  gives an id a second time; in every update each registered track that no detection
  matches has its disappeared counter incremented and is deregistered exactly when the
  counter then exceeds max\_disappeared, which is after max\_disappeared + 1 consecutive
  unmatched frames; a matched track's counter is 0 again. A track is unmatched whenever
  no detection of the frame is within the gating distance of its stored centre.
\<close>

theorem C7_tracker_ids_and_disappearance:
  assumes "tracker_inv t"
  shows "next_object_id (new_tracker md) = 0 \<and> tracker_inv (new_tracker md) \<and>
         snd (register t det) = next_object_id t \<and>
         next_object_id (fst (register t det)) = next_object_id t + 1 \<and>
         (\<exists>t'. tracker_step t ds = Inr t' \<and> tracker_inv t' \<and>
           next_object_id t \<le> next_object_id t' \<and>
           (\<forall>k. k < next_object_id t \<and> k \<notin> set (keys (objects t)) \<longrightarrow> k \<notin> set (keys (objects t'))) \<and>
           (\<forall>k. k \<in> set (keys (objects t')) \<longrightarrow>
                k \<in> set (keys (objects t)) \<or> (next_object_id t \<le> k \<and> k < next_object_id t')) \<and>
           (\<forall>k d. k \<in> set (unmatched_ids t ds) \<and> map_of (disappeared t) k = Some d \<longrightarrow>
                (if int (d + 1) > max_disappeared t
                 then k \<notin> set (keys (objects t')) \<and> map_of (disappeared t') k = None
                 else map_of (disappeared t') k = Some (d + 1) \<and>
                      map_of (objects t') k = map_of (objects t) k \<and>
                      k \<in> set (keys (objects t')))) \<and>
           (\<forall>k. k \<in> set (keys (objects t)) \<and> k \<notin> set (unmatched_ids t ds) \<longrightarrow>
                map_of (disappeared t') k = Some 0 \<and> k \<in> set (keys (objects t')))) \<and>
         (\<exists>t'. tracker_run t dss = Inr t' \<and> tracker_inv t' \<and>
           (\<forall>k. k < next_object_id t \<and> k \<notin> set (keys (objects t)) \<longrightarrow> k \<notin> set (keys (objects t')))) \<and>
         (map_of (disappeared t) k = Some 0 \<and> unmatched_run k t dss \<longrightarrow>
           (\<exists>t'. tracker_run t dss = Inr t' \<and>
              (int (length dss) \<le> max_disappeared t \<longrightarrow>
                 map_of (disappeared t') k = Some (length dss) \<and> k \<in> set (keys (objects t'))) \<and>
              (int (length dss) > max_disappeared t \<and> dss \<noteq> [] \<longrightarrow> k \<notin> set (keys (objects t'))) \<and>
              (0 \<le> max_disappeared t \<and> int (length dss) = max_disappeared t + 1 \<longrightarrow>
                 k \<notin> set (keys (objects t'))))) \<and>
         (j \<in> set (keys (objects t)) \<and> (\<forall>d \<in> set ds. far_from t j d) \<longrightarrow>
            j \<in> set (unmatched_ids t ds))"
proof -
  have p1: "next_object_id (new_tracker md) = 0 \<and> tracker_inv (new_tracker md)"
    using new_tracker_inv by (simp add: new_tracker_def)
  have p2: "snd (register t det) = next_object_id t \<and>
         next_object_id (fst (register t det)) = next_object_id t + 1"
    by (simp add: register_fields)
  note p3 = tracker_step_facts[OF assms, of ds]
  have p4: "\<exists>t'. tracker_run t dss = Inr t' \<and> tracker_inv t' \<and>
           (\<forall>k. k < next_object_id t \<and> k \<notin> set (keys (objects t)) \<longrightarrow> k \<notin> set (keys (objects t')))"
    using tracker_run_ok[OF assms, of dss] by blast
  have p5: "map_of (disappeared t) k = Some 0 \<and> unmatched_run k t dss \<longrightarrow>
           (\<exists>t'. tracker_run t dss = Inr t' \<and>
              (int (length dss) \<le> max_disappeared t \<longrightarrow>
                 map_of (disappeared t') k = Some (length dss) \<and> k \<in> set (keys (objects t'))) \<and>
              (int (length dss) > max_disappeared t \<and> dss \<noteq> [] \<longrightarrow> k \<notin> set (keys (objects t'))) \<and>
              (0 \<le> max_disappeared t \<and> int (length dss) = max_disappeared t + 1 \<longrightarrow>
                 k \<notin> set (keys (objects t'))))"
  proof
    assume h: "map_of (disappeared t) k = Some 0 \<and> unmatched_run k t dss"
    then have ko: "map_of (objects t) k \<noteq> None"
      using inv_key_disappeared[OF assms, of k 0] by (simp add: map_of_None_keys)
    from h unmatched_run_count[OF assms, of k 0 dss] obtain t' where
      t': "tracker_run t dss = Inr t'"
        "int (0 + length dss) \<le> max_disappeared t \<longrightarrow>
              map_of (disappeared t') k = Some (0 + length dss) \<and>
              map_of (objects t') k = map_of (objects t) k"
        "int (0 + length dss) > max_disappeared t \<and> dss \<noteq> [] \<longrightarrow>
              k \<notin> set (keys (objects t'))" by blast
    have a: "int (length dss) \<le> max_disappeared t \<longrightarrow>
                 map_of (disappeared t') k = Some (length dss) \<and> k \<in> set (keys (objects t'))"
      using t'(2) ko map_of_None_keys[of "objects t'" k] by auto
    have b: "int (length dss) > max_disappeared t \<and> dss \<noteq> [] \<longrightarrow> k \<notin> set (keys (objects t'))"
      using t'(3) by simp
    have c: "0 \<le> max_disappeared t \<and> int (length dss) = max_disappeared t + 1 \<longrightarrow>
                 k \<notin> set (keys (objects t'))"
      using b by auto
    show "\<exists>t'. tracker_run t dss = Inr t' \<and>
              (int (length dss) \<le> max_disappeared t \<longrightarrow>
                 map_of (disappeared t') k = Some (length dss) \<and> k \<in> set (keys (objects t'))) \<and>
              (int (length dss) > max_disappeared t \<and> dss \<noteq> [] \<longrightarrow> k \<notin> set (keys (objects t'))) \<and>
              (0 \<le> max_disappeared t \<and> int (length dss) = max_disappeared t + 1 \<longrightarrow>
                 k \<notin> set (keys (objects t')))"
      using t'(1) a b c by blast
  qed
  have p6: "j \<in> set (keys (objects t)) \<and> (\<forall>d \<in> set ds. far_from t j d) \<longrightarrow>
            j \<in> set (unmatched_ids t ds)"
    using far_unmatched[OF assms, of j ds] by blast
  show ?thesis using p1 p2 p3 p4 p5 p6 by blast
qed

lemma deque_append_last:
  assumes "0 < n"
  shows "deque_append n xs x \<noteq> [] \<and> last (deque_append n xs x) = x \<and>
         length (deque_append n xs x) \<le> n"
proof -
  have le: "length (xs @ [x]) - n \<le> length xs" using assms by simp
  then have "drop (length (xs @ [x]) - n) (xs @ [x]) = drop (length (xs @ [x]) - n) xs @ [x]"
    by simp
  then show ?thesis using assms by (simp add: deque_append_def Let_def)
qed

lemma mfc_update_appends:
  assumes "mfc_inv m" "0 < min_consecutive_frames m + max_frame_gap m" "distinct (keys tracked)"
  shows "\<exists>conf m'. mfc_update m now dets tracked = Inr (conf, m') \<and>
           (\<forall>k det. (k, det) \<in> set tracked \<longrightarrow>
              (\<exists>h. map_of (obstacle_history m') k = Some h \<and> h_detections h \<noteq> [] \<and>
                   last (h_detections h) =
                     \<lparr>he_detection = det, he_frame = frame_count m + 1, he_timestamp = now\<rparr> \<and>
                   int (length (h_detections h)) \<le> min_consecutive_frames m + max_frame_gap m \<and>
                   (reported k conf \<longleftrightarrow> should_confirm m h)))"
proof -
  have c: "0 \<le> min_consecutive_frames m + max_frame_gap m" using assms(2) by simp
  from mfc_update_ok[OF assms(1) c assms(3), of now dets] obtain conf m' where
    u: "mfc_update m now dets tracked = Inr (conf, m')"
      "\<forall>k det. (k, det) \<in> set tracked \<longrightarrow>
              (\<exists>h. advance_history (tick m) now (hist0 m k) det = Inr h \<and>
                   map_of (obstacle_history m') k = Some (mark_confirmed m h) \<and>
                   map_of (confirmed_obstacles m') k =
                     (if should_confirm m h \<and> \<not> h_confirmed h then Some det
                      else map_of (confirmed_obstacles m) k) \<and>
                   (reported k conf \<longleftrightarrow> should_confirm m h))"
    by blast
  have "\<forall>k det. (k, det) \<in> set tracked \<longrightarrow>
              (\<exists>h. map_of (obstacle_history m') k = Some h \<and> h_detections h \<noteq> [] \<and>
                   last (h_detections h) =
                     \<lparr>he_detection = det, he_frame = frame_count m + 1, he_timestamp = now\<rparr> \<and>
                   int (length (h_detections h)) \<le> min_consecutive_frames m + max_frame_gap m \<and>
                   (reported k conf \<longleftrightarrow> should_confirm m h))"
  proof (intro allI impI)
    fix k det assume "(k, det) \<in> set tracked"
    with u(2) obtain h where
      h: "advance_history (tick m) now (hist0 m k) det = Inr h"
        "map_of (obstacle_history m') k = Some (mark_confirmed m h)"
        "reported k conf \<longleftrightarrow> should_confirm m h" by blast
    from advance_history_ok[of "tick m" now "hist0 m k" det] h(1)
    have hd: "h_detections h =
        deque_append (nat (min_consecutive_frames (tick m) + max_frame_gap (tick m)))
          (h_detections (hist0 m k))
          \<lparr>he_detection = det, he_frame = frame_count (tick m), he_timestamp = now\<rparr>"
      by auto
    have n: "0 < nat (min_consecutive_frames (tick m) + max_frame_gap (tick m))"
      using assms(2) by (simp add: tick_def)
    note dl = deque_append_last[OF n, of "h_detections (hist0 m k)"
        "\<lparr>he_detection = det, he_frame = frame_count (tick m), he_timestamp = now\<rparr>"]
    have sc: "should_confirm m (mark_confirmed m h) = should_confirm m h"
      by (simp add: should_confirm_def mark_confirmed_def)
    have len: "int (length (h_detections h)) \<le> min_consecutive_frames m + max_frame_gap m"
    proof -
      have "length (h_detections h) \<le> nat (min_consecutive_frames m + max_frame_gap m)"
        using dl hd by (simp add: tick_def)
      then show ?thesis using assms(2) by linarith
    qed
    show "\<exists>h. map_of (obstacle_history m') k = Some h \<and> h_detections h \<noteq> [] \<and>
                   last (h_detections h) =
                     \<lparr>he_detection = det, he_frame = frame_count m + 1, he_timestamp = now\<rparr> \<and>
                   int (length (h_detections h)) \<le> min_consecutive_frames m + max_frame_gap m \<and>
                   (reported k conf \<longleftrightarrow> should_confirm m h)"
      using h(2,3) dl hd sc len
      by (intro exI[of _ "mark_confirmed m h"]) (simp add: mark_confirmed_def tick_def)
  qed
  with u(1) show ?thesis by blast
qed

text \<open>
  C10. Every update of the tracker returns the dictionary of all tracks registered after
  the call. A track that no detection matched is returned with the detection stored
  before, as long as its counter does not exceed max\_disappeared; a track leaves the
  returned dictionary only by deregistration. The confirmation stage appends a history
  entry of the current frame for every track of the returned dictionary, so also for the
  unmatched ones.
\<close>

theorem C10_update_returns_registered_tracks:
  assumes "tracker_inv t"
  shows "(\<exists>res t'. tracker_update t ds = Inr (res, t') \<and> res = objects t' \<and> tracker_inv t' \<and>
            (\<forall>k d. k \<in> set (unmatched_ids t ds) \<and> map_of (disappeared t) k = Some d \<and>
                   int (d + 1) \<le> max_disappeared t \<longrightarrow>
                   map_of res k = map_of (objects t) k \<and> k \<in> set (keys res)) \<and>
            (\<forall>k. k \<in> set (keys (objects t)) \<and> k \<notin> set (keys res) \<longrightarrow>
                 k \<in> set (unmatched_ids t ds) \<and>
                 (\<exists>d. map_of (disappeared t) k = Some d \<and> int (d + 1) > max_disappeared t)) \<and>
            (mfc_inv m \<and> 0 < min_consecutive_frames m + max_frame_gap m \<longrightarrow>
               (\<exists>conf m'. mfc_update m now ds res = Inr (conf, m') \<and>
                  (\<forall>k det. (k, det) \<in> set res \<longrightarrow>
                     (\<exists>h. map_of (obstacle_history m') k = Some h \<and> h_detections h \<noteq> [] \<and>
                          last (h_detections h) =
                            \<lparr>he_detection = det, he_frame = frame_count m + 1,
                             he_timestamp = now\<rparr>))))) \<and>
         (map_of (disappeared t) k = Some 0 \<and> unmatched_run k t dss \<and>
          int (length dss) \<le> max_disappeared t \<longrightarrow>
            (\<exists>t'. tracker_run t dss = Inr t' \<and> map_of (objects t') k = map_of (objects t) k \<and>
                  k \<in> set (keys (objects t'))))"
proof -
  from tracker_step_facts[OF assms, of ds] obtain t' where
    t': "tracker_step t ds = Inr t'" "tracker_inv t'"
      "\<forall>k d. k \<in> set (unmatched_ids t ds) \<and> map_of (disappeared t) k = Some d \<longrightarrow>
                (if int (d + 1) > max_disappeared t
                 then k \<notin> set (keys (objects t')) \<and> map_of (disappeared t') k = None
                 else map_of (disappeared t') k = Some (d + 1) \<and>
                      map_of (objects t') k = map_of (objects t) k \<and>
                      k \<in> set (keys (objects t')))"
      "\<forall>k. k \<in> set (keys (objects t)) \<and> k \<notin> set (unmatched_ids t ds) \<longrightarrow>
                map_of (disappeared t') k = Some 0 \<and> k \<in> set (keys (objects t'))"
    by blast
  have r: "tracker_update t ds = Inr (objects t', t')" using t'(1) by (simp add: tracker_update_def)
  have a: "\<forall>k d. k \<in> set (unmatched_ids t ds) \<and> map_of (disappeared t) k = Some d \<and>
                   int (d + 1) \<le> max_disappeared t \<longrightarrow>
                   map_of (objects t') k = map_of (objects t) k \<and> k \<in> set (keys (objects t'))"
    using t'(3) by (metis not_less)
  have b: "\<forall>k. k \<in> set (keys (objects t)) \<and> k \<notin> set (keys (objects t')) \<longrightarrow>
                 k \<in> set (unmatched_ids t ds) \<and>
                 (\<exists>d. map_of (disappeared t) k = Some d \<and> int (d + 1) > max_disappeared t)"
  proof (intro allI impI)
    fix k assume k: "k \<in> set (keys (objects t)) \<and> k \<notin> set (keys (objects t'))"
    then have u: "k \<in> set (unmatched_ids t ds)" using t'(4) by blast
    from k assms have "k \<in> set (keys (disappeared t))" by (simp add: tracker_inv_def)
    then obtain d where d: "map_of (disappeared t) k = Some d"
      using map_of_None_keys[of "disappeared t" k] by (cases "map_of (disappeared t) k") auto
    with u t'(3) k have "int (d + 1) > max_disappeared t" by (metis)
    with u d show "k \<in> set (unmatched_ids t ds) \<and>
                 (\<exists>d. map_of (disappeared t) k = Some d \<and> int (d + 1) > max_disappeared t)"
      by blast
  qed
  have dk: "distinct (keys (objects t'))" using t'(2) unfolding tracker_inv_def by blast
  have c: "mfc_inv m \<and> 0 < min_consecutive_frames m + max_frame_gap m \<longrightarrow>
               (\<exists>conf m'. mfc_update m now ds (objects t') = Inr (conf, m') \<and>
                  (\<forall>k det. (k, det) \<in> set (objects t') \<longrightarrow>
                     (\<exists>h. map_of (obstacle_history m') k = Some h \<and> h_detections h \<noteq> [] \<and>
                          last (h_detections h) =
                            \<lparr>he_detection = det, he_frame = frame_count m + 1,
                             he_timestamp = now\<rparr>)))"
  proof
    assume h: "mfc_inv m \<and> 0 < min_consecutive_frames m + max_frame_gap m"
    from mfc_update_appends[OF conjunct1[OF h] conjunct2[OF h] dk, of now ds]
    show "\<exists>conf m'. mfc_update m now ds (objects t') = Inr (conf, m') \<and>
                  (\<forall>k det. (k, det) \<in> set (objects t') \<longrightarrow>
                     (\<exists>h. map_of (obstacle_history m') k = Some h \<and> h_detections h \<noteq> [] \<and>
                          last (h_detections h) =
                            \<lparr>he_detection = det, he_frame = frame_count m + 1,
                             he_timestamp = now\<rparr>))"
      by blast
  qed
  have part1: "\<exists>res t'. tracker_update t ds = Inr (res, t') \<and> res = objects t' \<and> tracker_inv t' \<and>
            (\<forall>k d. k \<in> set (unmatched_ids t ds) \<and> map_of (disappeared t) k = Some d \<and>
                   int (d + 1) \<le> max_disappeared t \<longrightarrow>
                   map_of res k = map_of (objects t) k \<and> k \<in> set (keys res)) \<and>
            (\<forall>k. k \<in> set (keys (objects t)) \<and> k \<notin> set (keys res) \<longrightarrow>
                 k \<in> set (unmatched_ids t ds) \<and>
                 (\<exists>d. map_of (disappeared t) k = Some d \<and> int (d + 1) > max_disappeared t)) \<and>
            (mfc_inv m \<and> 0 < min_consecutive_frames m + max_frame_gap m \<longrightarrow>
               (\<exists>conf m'. mfc_update m now ds res = Inr (conf, m') \<and>
                  (\<forall>k det. (k, det) \<in> set res \<longrightarrow>
                     (\<exists>h. map_of (obstacle_history m') k = Some h \<and> h_detections h \<noteq> [] \<and>
                          last (h_detections h) =
                            \<lparr>he_detection = det, he_frame = frame_count m + 1,
                             he_timestamp = now\<rparr>))))"
    using r t'(2) a b c by blast
  have part2: "map_of (disappeared t) k = Some 0 \<and> unmatched_run k t dss \<and>
          int (length dss) \<le> max_disappeared t \<longrightarrow>
            (\<exists>t'. tracker_run t dss = Inr t' \<and> map_of (objects t') k = map_of (objects t) k \<and>
                  k \<in> set (keys (objects t')))"
  proof
    assume h: "map_of (disappeared t) k = Some 0 \<and> unmatched_run k t dss \<and>
          int (length dss) \<le> max_disappeared t"
    then have ko: "map_of (objects t) k \<noteq> None"
      using inv_key_disappeared[OF assms, of k 0] by (simp add: map_of_None_keys)
    from h unmatched_run_count[OF assms, of k 0 dss] obtain t' where
      t': "tracker_run t dss = Inr t'"
        "int (0 + length dss) \<le> max_disappeared t \<longrightarrow>
              map_of (disappeared t') k = Some (0 + length dss) \<and>
              map_of (objects t') k = map_of (objects t) k" by blast
    with h have e: "map_of (objects t') k = map_of (objects t) k" by simp
    with ko have "k \<in> set (keys (objects t'))" using map_of_None_keys[of "objects t'" k] by auto
    with t'(1) e show "\<exists>t'. tracker_run t dss = Inr t' \<and> map_of (objects t') k = map_of (objects t) k \<and>
                  k \<in> set (keys (objects t'))" by blast
  qed
  show ?thesis using part1 part2 by blast
qed

lemma spec_confirmed_cfg:
  "min_consecutive_frames m' = min_consecutive_frames m \<Longrightarrow> max_frame_gap m' = max_frame_gap m \<Longrightarrow>
   spec_confirmed m' h = spec_confirmed m h"
  by (simp add: spec_confirmed_def)

text \<open>
  C3. (With min\_consecutive\_frames at least 1 and max\_frame\_gap at least 0.) After the
  entry of the current frame is appended to the bounded history of a tracked id, the
  update reports the id as confirmed exactly when the history holds at least
  min\_consecutive\_frames entries and no gap between the frame indices of the most recent
  min\_consecutive\_frames entries exceeds max\_frame\_gap. A track without history that is
  tracked in each of exactly min\_consecutive\_frames consecutive updates is reported in
  the last of them and in no earlier one.
\<close>

theorem C3_confirmation_rule:
  assumes "mfc_inv m" "0 < min_consecutive_frames m" "0 \<le> max_frame_gap m"
  shows "(distinct (keys tracked) \<and> (k, det) \<in> set tracked \<longrightarrow>
           (\<exists>conf m' h. mfc_update m now dets tracked = Inr (conf, m') \<and>
               map_of (obstacle_history m') k = Some h \<and>
               h_detections h \<noteq> [] \<and>
               last (h_detections h) =
                 \<lparr>he_detection = det, he_frame = frame_count m + 1, he_timestamp = now\<rparr> \<and>
               int (length (h_detections h)) \<le> min_consecutive_frames m + max_frame_gap m \<and>
               (reported k conf \<longleftrightarrow> spec_confirmed m h))) \<and>
         (map_of (obstacle_history m) k = None \<and> length inputs = nat (min_consecutive_frames m) \<and>
          (\<forall>(now, tracked) \<in> set inputs. distinct (keys tracked) \<and> k \<in> set (keys tracked)) \<longrightarrow>
           (\<exists>outs m'. mfc_updates m inputs = Inr (outs, m') \<and>
              length outs = nat (min_consecutive_frames m) \<and>
              (\<forall>i < length outs. reported k (outs ! i) \<longleftrightarrow> i = nat (min_consecutive_frames m) - 1)))"
proof -
  have c: "0 < min_consecutive_frames m + max_frame_gap m" using assms(2,3) by simp
  have part1: "distinct (keys tracked) \<and> (k, det) \<in> set tracked \<longrightarrow>
           (\<exists>conf m' h. mfc_update m now dets tracked = Inr (conf, m') \<and>
               map_of (obstacle_history m') k = Some h \<and>
               h_detections h \<noteq> [] \<and>
               last (h_detections h) =
                 \<lparr>he_detection = det, he_frame = frame_count m + 1, he_timestamp = now\<rparr> \<and>
               int (length (h_detections h)) \<le> min_consecutive_frames m + max_frame_gap m \<and>
               (reported k conf \<longleftrightarrow> spec_confirmed m h))"
  proof
    assume h: "distinct (keys tracked) \<and> (k, det) \<in> set tracked"
    from mfc_update_appends[OF assms(1) c conjunct1[OF h], of now dets] h
    show "\<exists>conf m' h. mfc_update m now dets tracked = Inr (conf, m') \<and>
               map_of (obstacle_history m') k = Some h \<and>
               h_detections h \<noteq> [] \<and>
               last (h_detections h) =
                 \<lparr>he_detection = det, he_frame = frame_count m + 1, he_timestamp = now\<rparr> \<and>
               int (length (h_detections h)) \<le> min_consecutive_frames m + max_frame_gap m \<and>
               (reported k conf \<longleftrightarrow> spec_confirmed m h)"
      unfolding should_confirm_spec[OF assms(2)] by blast
  qed
  have part2: "map_of (obstacle_history m) k = None \<and> length inputs = nat (min_consecutive_frames m) \<and>
          (\<forall>(now, tracked) \<in> set inputs. distinct (keys tracked) \<and> k \<in> set (keys tracked)) \<longrightarrow>
           (\<exists>outs m'. mfc_updates m inputs = Inr (outs, m') \<and>
              length outs = nat (min_consecutive_frames m) \<and>
              (\<forall>i < length outs. reported k (outs ! i) \<longleftrightarrow> i = nat (min_consecutive_frames m) - 1))"
  proof
    assume h: "map_of (obstacle_history m) k = None \<and> length inputs = nat (min_consecutive_frames m) \<and>
          (\<forall>(now, tracked) \<in> set inputs. distinct (keys tracked) \<and> k \<in> set (keys tracked))"
    have fr: "map he_frame (h_detections (hist0 m k)) = [Suc (frame_count m) - 0 ..< Suc (frame_count m)]"
      using h by (simp add: hist0_def get_or_def default_history_def)
    have le: "0 + length inputs \<le> nat (min_consecutive_frames m + max_frame_gap m)"
      using h assms(3) by simp
    from run_consec[OF assms conjunct2[OF conjunct2[OF h]] fr _ le] obtain outs m' where
      r: "mfc_updates m inputs = Inr (outs, m')"
        "map (reported k) outs =
             map (\<lambda>i. min_consecutive_frames m \<le> int (Suc (0 + i))) [0 ..< length inputs]"
      by auto
    have len: "length outs = nat (min_consecutive_frames m)"
      using arg_cong[OF r(2), of length] h by simp
    have "\<forall>i < length outs. reported k (outs ! i) \<longleftrightarrow> i = nat (min_consecutive_frames m) - 1"
    proof (intro allI impI)
      fix i assume i: "i < length outs"
      have "reported k (outs ! i) = map (reported k) outs ! i" using i by simp
      also have "\<dots> = (min_consecutive_frames m \<le> int (Suc (0 + i)))"
        unfolding r(2) using i len h by simp
      also have "\<dots> \<longleftrightarrow> i = nat (min_consecutive_frames m) - 1"
        using i len assms(2) by auto
      finally show "reported k (outs ! i) \<longleftrightarrow> i = nat (min_consecutive_frames m) - 1" .
    qed
    with r(1) len show "\<exists>outs m'. mfc_updates m inputs = Inr (outs, m') \<and>
              length outs = nat (min_consecutive_frames m) \<and>
              (\<forall>i < length outs. reported k (outs ! i) \<longleftrightarrow> i = nat (min_consecutive_frames m) - 1)"
      by blast
  qed
  show ?thesis using part1 part2 by blast
qed

text \<open>
  C4. Once a track is confirmed, its confirmed flag and its entry in the
  registry of confirmed obstacles survive every later update, until the inactivity
  clean-up removes the track (which happens only in an update where it is not tracked and
  was last seen more than 10 seconds before). The list that an update returns contains
  the track only if it is tracked in that update and the gap test holds for its history.
\<close>

theorem C4_confirmed_flag_persists:
  assumes "mfc_inv m" "0 \<le> min_consecutive_frames m + max_frame_gap m" "distinct (keys tracked)"
    "map_of (obstacle_history m) k = Some h" "h_confirmed h"
    "map_of (confirmed_obstacles m) k \<noteq> None"
  shows "\<exists>conf m'. mfc_update m now dets tracked = Inr (conf, m') \<and>
           (if k \<notin> set (keys tracked) \<and> is_old now 10 h
            then map_of (obstacle_history m') k = None \<and> map_of (confirmed_obstacles m') k = None
            else (\<exists>h'. map_of (obstacle_history m') k = Some h' \<and> h_confirmed h') \<and>
                 map_of (confirmed_obstacles m') k \<noteq> None \<and>
                 k \<in> set (get_all_confirmed_ids m')) \<and>
           (reported k conf \<longleftrightarrow>
              k \<in> set (keys tracked) \<and>
              (\<exists>h'. map_of (obstacle_history m') k = Some h' \<and> should_confirm m h'))"
proof -
  from mfc_update_ok[OF assms(1,2,3), of now dets] obtain conf m' where
    u: "mfc_update m now dets tracked = Inr (conf, m')"
      "\<forall>k det. (k, det) \<in> set tracked \<longrightarrow>
              (\<exists>h. advance_history (tick m) now (hist0 m k) det = Inr h \<and>
                   map_of (obstacle_history m') k = Some (mark_confirmed m h) \<and>
                   map_of (confirmed_obstacles m') k =
                     (if should_confirm m h \<and> \<not> h_confirmed h then Some det
                      else map_of (confirmed_obstacles m) k) \<and>
                   (reported k conf \<longleftrightarrow> should_confirm m h))"
      "\<forall>k. k \<notin> set (keys tracked) \<longrightarrow>
              \<not> reported k conf \<and>
              map_of (obstacle_history m') k =
                (case map_of (obstacle_history m) k of
                   None \<Rightarrow> None | Some h \<Rightarrow> if is_old now 10 h then None else Some h) \<and>
              map_of (confirmed_obstacles m') k =
                (if (\<exists>h. map_of (obstacle_history m) k = Some h \<and> is_old now 10 h) then None
                 else map_of (confirmed_obstacles m) k)"
    by blast
  have gac: "\<And>m. map_of (confirmed_obstacles m) k \<noteq> None \<Longrightarrow> map_of (obstacle_history m) k \<noteq> None \<Longrightarrow>
              k \<in> set (get_all_confirmed_ids m)"
    by (auto simp: get_all_confirmed_ids_def map_of_None_keys)
  show ?thesis
  proof (cases "k \<in> set (keys tracked)")
    case True
    then obtain det where "(k, det) \<in> set tracked" by (auto simp: keys_def)
    with u(2) obtain h1 where
      h1: "advance_history (tick m) now (hist0 m k) det = Inr h1"
        "map_of (obstacle_history m') k = Some (mark_confirmed m h1)"
        "map_of (confirmed_obstacles m') k =
                     (if should_confirm m h1 \<and> \<not> h_confirmed h1 then Some det
                      else map_of (confirmed_obstacles m) k)"
        "reported k conf \<longleftrightarrow> should_confirm m h1" by blast
    from advance_history_ok[of "tick m" now "hist0 m k" det] h1(1)
    have "h_confirmed h1 = h_confirmed (hist0 m k)" by auto
    then have hc: "h_confirmed h1" using assms(4,5) by (simp add: hist0_def get_or_def)
    have sc: "should_confirm m (mark_confirmed m h1) = should_confirm m h1"
      by (simp add: should_confirm_def mark_confirmed_def)
    have co: "map_of (confirmed_obstacles m') k \<noteq> None" using h1(3) hc assms(6) by simp
    have "(\<exists>h'. map_of (obstacle_history m') k = Some h' \<and> h_confirmed h') \<and>
                 map_of (confirmed_obstacles m') k \<noteq> None \<and>
                 k \<in> set (get_all_confirmed_ids m')"
      using h1(2) hc co gac[of m'] by (simp add: mark_confirmed_def)
    moreover have "reported k conf \<longleftrightarrow>
              k \<in> set (keys tracked) \<and>
              (\<exists>h'. map_of (obstacle_history m') k = Some h' \<and> should_confirm m h')"
      using True h1(2,4) sc by simp
    ultimately show ?thesis using u(1) True by auto
  next
    case False
    with u(3) have o: "\<not> reported k conf"
      "map_of (obstacle_history m') k = (if is_old now 10 h then None else Some h)"
      "map_of (confirmed_obstacles m') k =
                (if is_old now 10 h then None else map_of (confirmed_obstacles m) k)"
      using assms(4) by auto
    show ?thesis
    proof (cases "is_old now 10 h")
      case True
      then show ?thesis using u(1) False o by auto
    next
      case old: False
      have "k \<in> set (get_all_confirmed_ids m')" using gac[of m'] o old assms(6) by simp
      then show ?thesis using u(1) False o old assms(5,6) by auto
    qed
  qed
qed

subsection \<open>Runs on the worked inputs, and per-frame processing\<close>


text \<open>The definitions that evaluate a run on concrete inputs.\<close>

lemmas mfc_eval = mfc_update_def new_mfc_def process_tracked_def history_lookup_def advance_history_def
   deque_append_def default_history_def should_confirm_def py_slice_from_def is_static_def
   cleanup_old_obstacles_def is_old_def remove_obstacle_def reported_def confirmed_entry_def get_or_def
   get_center_def linalg_norm_diff_def Let_def

lemmas tracker_eval = tracker_update_def tracker_step_def new_tracker_def register_def keys_def
   mark_disappeared_def deregister_def unmatched_ids_def

lemmas frame_eval = process_frame_def new_system_def default_track_segmentation_def default_estimator_def
   initialize_frame_dimensions_def rejected_def bbox_area_def aspect_ratio_def classify_zone_def py_truediv_def
   make_incident_def assess_risk_def estimate_distance_def known_height_def calculate_ttc_def get_ttc_level_def
   calculate_risk_score_def class_scores_def zone_multipliers_def get_risk_level_def round_half_even_def
   classify_def is_critical_def is_high_def is_medium_def py_any_def generate_report_def
   get_severity_priority_def get_recommended_action_def severity_of_def

theorem C7_tracker_ids_and_disappearance_witness:
  "tracker_inv (fst (register (new_tracker 1) human_det)) \<and>
   map_of (disappeared (fst (register (new_tracker 1) human_det))) 0 = Some 0 \<and>
   unmatched_run 0 (fst (register (new_tracker 1) human_det)) [[], []] \<and>
   (\<exists>t'. tracker_run (fst (register (new_tracker 1) human_det)) [[], []] = Inr t' \<and>
         0 \<notin> set (keys (objects t')))"
proof -
  let ?t = "fst (register (new_tracker 1) human_det)"
  have inv: "tracker_inv ?t" by (simp add: tracker_inv_def tracker_eval)
  have d: "map_of (disappeared ?t) 0 = Some 0" by (simp add: tracker_eval)
  have u: "unmatched_run 0 ?t [[], []]" by (simp add: tracker_eval)
  have m: "0 \<le> max_disappeared ?t \<and> int (length [[], []::detection list]) = max_disappeared ?t + 1"
    by (simp add: tracker_eval)
  from C7_tracker_ids_and_disappearance[OF inv, where k = 0 and dss = "[[], []]"] d u m
  have "\<exists>t'. tracker_run ?t [[], []] = Inr t' \<and> 0 \<notin> set (keys (objects t'))"
    by blast
  with inv d u show ?thesis by blast
qed

theorem C10_update_returns_registered_tracks_witness:
  "tracker_inv (fst (register (new_tracker 5) human_det)) \<and>
   0 \<in> set (unmatched_ids (fst (register (new_tracker 5) human_det)) []) \<and>
   map_of (disappeared (fst (register (new_tracker 5) human_det))) 0 = Some 0 \<and>
   mfc_inv (new_mfc 5 3 50) \<and>
   (\<exists>res t'. tracker_update (fst (register (new_tracker 5) human_det)) [] = Inr (res, t') \<and>
      map_of res 0 = Some human_det \<and>
      (\<exists>conf m'. mfc_update (new_mfc 5 3 50) 1 [] res = Inr (conf, m') \<and>
         (\<exists>h. map_of (obstacle_history m') 0 = Some h \<and>
              last (h_detections h) =
                \<lparr>he_detection = human_det, he_frame = 1, he_timestamp = 1\<rparr>)))"
proof -
  let ?t = "fst (register (new_tracker 5) human_det)"
  let ?m = "new_mfc 5 3 50"
  have inv: "tracker_inv ?t" by (simp add: tracker_inv_def tracker_eval)
  have u: "0 \<in> set (unmatched_ids ?t [])" by (simp add: tracker_eval)
  have d: "map_of (disappeared ?t) 0 = Some 0" by (simp add: tracker_eval)
  have mx: "int (0 + 1) \<le> max_disappeared ?t" by (simp add: tracker_eval)
  have o: "map_of (objects ?t) 0 = Some human_det" by (simp add: tracker_eval)
  have mi: "mfc_inv ?m" by (simp add: mfc_inv_def new_mfc_def keys_def)
  have mc: "0 < min_consecutive_frames ?m + max_frame_gap ?m" "frame_count ?m + 1 = 1"
    by (simp_all add: new_mfc_def)
  from C10_update_returns_registered_tracks[OF inv, where ds = "[]" and m = ?m and now = 1]
  obtain res t' where
    r: "tracker_update ?t [] = Inr (res, t')"
      "\<forall>k d. k \<in> set (unmatched_ids ?t []) \<and> map_of (disappeared ?t) k = Some d \<and>
                   int (d + 1) \<le> max_disappeared ?t \<longrightarrow>
                   map_of res k = map_of (objects ?t) k \<and> k \<in> set (keys res)"
      "mfc_inv ?m \<and> 0 < min_consecutive_frames ?m + max_frame_gap ?m \<longrightarrow>
               (\<exists>conf m'. mfc_update ?m 1 [] res = Inr (conf, m') \<and>
                  (\<forall>k det. (k, det) \<in> set res \<longrightarrow>
                     (\<exists>h. map_of (obstacle_history m') k = Some h \<and> h_detections h \<noteq> [] \<and>
                          last (h_detections h) =
                            \<lparr>he_detection = det, he_frame = frame_count ?m + 1,
                             he_timestamp = 1\<rparr>)))"
    by blast
  from r(2) u d mx o have e: "map_of res 0 = Some human_det" by metis
  then have mem: "(0, human_det) \<in> set res" by (rule map_of_SomeD)
  from r(3) mi mc(1) obtain conf m' where
    c: "mfc_update ?m 1 [] res = Inr (conf, m')"
      "\<forall>k det. (k, det) \<in> set res \<longrightarrow>
                     (\<exists>h. map_of (obstacle_history m') k = Some h \<and> h_detections h \<noteq> [] \<and>
                          last (h_detections h) =
                            \<lparr>he_detection = det, he_frame = frame_count ?m + 1,
                             he_timestamp = 1\<rparr>)"
    by blast
  from c(2) mem mc(2) have "\<exists>h. map_of (obstacle_history m') 0 = Some h \<and>
              last (h_detections h) =
                \<lparr>he_detection = human_det, he_frame = 1, he_timestamp = 1\<rparr>"
    by auto
  with r(1) e c(1) inv u d mi show ?thesis by blast
qed

theorem C3_confirmation_rule_witness:
  "mfc_inv (new_mfc 5 3 50) \<and> 0 < min_consecutive_frames (new_mfc 5 3 50) \<and>
   0 \<le> max_frame_gap (new_mfc 5 3 50) \<and>
   map_of (obstacle_history (new_mfc 5 3 50)) 7 = None \<and>
   length (take 5 gap_inputs) = nat (min_consecutive_frames (new_mfc 5 3 50)) \<and>
   (\<exists>outs m'. mfc_updates (new_mfc 5 3 50) (take 5 gap_inputs) = Inr (outs, m') \<and>
      length outs = 5 \<and> \<not> reported 7 (outs ! 3) \<and> reported 7 (outs ! 4))"
proof -
  let ?m = "new_mfc 5 3 50"
  have mi: "mfc_inv ?m" by (simp add: mfc_inv_def new_mfc_def keys_def)
  have c: "0 < min_consecutive_frames ?m" "0 \<le> max_frame_gap ?m"
    "map_of (obstacle_history ?m) 7 = None"
    "length (take 5 gap_inputs) = nat (min_consecutive_frames ?m)"
    by (simp_all add: new_mfc_def gap_inputs_def)
  have a: "\<forall>(now, tracked) \<in> set (take 5 gap_inputs). distinct (keys tracked) \<and> 7 \<in> set (keys tracked)"
    by (simp add: gap_inputs_def keys_def)
  from C3_confirmation_rule[OF mi c(1,2), where k = 7 and inputs = "take 5 gap_inputs"] c(3,4) a
  obtain outs m' where
    r: "mfc_updates ?m (take 5 gap_inputs) = Inr (outs, m')"
      "length outs = nat (min_consecutive_frames ?m)"
      "\<forall>i < length outs. reported 7 (outs ! i) \<longleftrightarrow> i = nat (min_consecutive_frames ?m) - 1"
    by blast
  have n: "nat (min_consecutive_frames ?m) = 5" by (simp add: new_mfc_def)
  from r(2,3) n have "length outs = 5 \<and> \<not> reported 7 (outs ! 3) \<and> reported 7 (outs ! 4)"
    by auto
  with r(1) mi c show ?thesis by blast
qed

theorem C4_confirmed_not_reported_counterexample:
  "run_report 7 (new_mfc 5 3 50) gap_inputs =
     Inr ([False, False, False, False, True, False, False, False, False, False],
          Some True, [7])"
  by (simp add: run_report_def gap_inputs_def human_det_def
      get_all_confirmed_ids_def keys_def mfc_eval)

theorem C4_confirmed_flag_persists_witness:
  "\<exists>outs m h. mfc_updates (new_mfc 5 3 50) (take 5 gap_inputs) = Inr (outs, m) \<and>
      mfc_inv m \<and> map_of (obstacle_history m) 7 = Some h \<and> h_confirmed h \<and>
      map_of (confirmed_obstacles m) 7 \<noteq> None \<and> \<not> is_old 6 10 h \<and>
      (\<exists>conf m'. mfc_update m 6 [] [] = Inr (conf, m') \<and> \<not> reported 7 conf \<and>
                 7 \<in> set (get_all_confirmed_ids m'))"
proof -
  have "\<exists>outs m h. mfc_updates (new_mfc 5 3 50) (take 5 gap_inputs) = Inr (outs, m) \<and>
      mfc_inv m \<and> 0 \<le> min_consecutive_frames m + max_frame_gap m \<and>
      map_of (obstacle_history m) 7 = Some h \<and> h_confirmed h \<and>
      map_of (confirmed_obstacles m) 7 \<noteq> None \<and> \<not> is_old 6 10 h"
    by (simp add: gap_inputs_def human_det_def mfc_inv_def keys_def mfc_eval)
  then obtain outs m h where
    e: "mfc_updates (new_mfc 5 3 50) (take 5 gap_inputs) = Inr (outs, m)"
      "mfc_inv m" "0 \<le> min_consecutive_frames m + max_frame_gap m"
      "map_of (obstacle_history m) 7 = Some h" "h_confirmed h"
      "map_of (confirmed_obstacles m) 7 \<noteq> None" "\<not> is_old 6 10 h"
    by blast
  have dk: "distinct (keys ([]::(nat \<times> detection) list))" by (simp add: keys_def)
  from C4_confirmed_flag_persists[OF e(2,3) dk e(4,5,6), of 6 "[]"] e(7)
  obtain conf m' where
    "mfc_update m 6 [] [] = Inr (conf, m')" "\<not> reported 7 conf"
    "7 \<in> set (get_all_confirmed_ids m')"
    by (auto simp: keys_def)
  with e show ?thesis by blast
qed

lemma filter_alerts_fst:
  "fst (filter_alerts n obs c) = filter (\<lambda>ob. \<not> rejected n ob) obs"
proof (induction obs arbitrary: c)
  case Nil
  then show ?case by simp
next
  case (Cons a obs)
  show ?case
    using Cons.IH[of c] Cons.IH[of "c + 1"]
    by (cases "filter_alerts n obs c") auto
qed

lemma rejected_small: "bbox_area (det_bbox ob) < n \<Longrightarrow> rejected n ob"
  by (simp add: rejected_def Let_def)

lemma classify_zones_ok:
  "classify_zones ts obs = Inr zs \<Longrightarrow>
     map det_bbox zs = map det_bbox obs \<and> list_all (\<lambda>ob. ob_zone ob \<noteq> None) zs"
  by (induction obs arbitrary: zs) (auto split: sum.splits)

lemma assess_obstacles_ok:
  "list_all (\<lambda>ob. ob_zone ob \<noteq> None) obs \<Longrightarrow>
   assess_obstacles est obs (incs, evs) =
     Inr (incs @ map (report_of est) (filter (is_severe est) obs),
          evs @ report_events (map (report_of est) (filter (is_severe est) obs)))"
proof (induction obs arbitrary: incs evs)
  case Nil
  then show ?case by (simp add: report_events_def)
next
  case (Cons ob obs)
  from Cons.prems obtain z where z: "ob_zone ob = Some z" by auto
  from Cons.prems have rest: "list_all (\<lambda>ob. ob_zone ob \<noteq> None) obs" by simp
  show ?case
    using z Cons.IH[OF rest]
    by (simp add: is_severe_def severity_of_def report_of_def report_events_def get_or_def Let_def)
qed

lemma report_of_fields:
  "rep_severity (report_of est ob) = severity_of est ob"
  "rep_bbox (report_of est ob) = Some (det_bbox ob)"
  by (simp_all add: report_of_def severity_of_def generate_report_def make_incident_def Let_def)

lemma process_frame_parts:
  assumes "process_frame sys shape dets now = Inr (res, sys')"
  shows "\<exists>tracked conf mfc' ts.
           tracker_update (sys_tracker sys) dets = Inr (tracked, sys_tracker sys') \<and>
           mfc_update (sys_mfc sys) now dets tracked = Inr (conf, mfc') \<and>
           classify_zones ts (fst (filter_alerts 1000 conf (sys_suppressed_count sys))) =
             Inr (fr_filtered_obstacles res) \<and>
           assess_obstacles (sys_estimator sys) (fr_filtered_obstacles res) ([], []) =
             Inr (fr_incidents res, fr_events res)"
  using assms unfolding process_frame_def Let_def
  by (auto split: sum.splits prod.splits)

lemma process_frame_incidents:
  assumes "process_frame sys shape dets now = Inr (res, sys')"
  shows "fr_incidents res =
           map (report_of (sys_estimator sys)) (filter (is_severe (sys_estimator sys)) (fr_filtered_obstacles res)) \<and>
         fr_events res = report_events (fr_incidents res) \<and>
         (\<forall>ob \<in> set (fr_filtered_obstacles res). 1000 \<le> bbox_area (det_bbox ob))"
proof -
  from process_frame_parts[OF assms] obtain tracked conf mfc' ts where
    p: "classify_zones ts (fst (filter_alerts 1000 conf (sys_suppressed_count sys))) =
             Inr (fr_filtered_obstacles res)"
      "assess_obstacles (sys_estimator sys) (fr_filtered_obstacles res) ([], []) =
             Inr (fr_incidents res, fr_events res)" by blast
  note z = classify_zones_ok[OF p(1)]
  from assess_obstacles_ok[OF conjunct2[OF z], of "sys_estimator sys" "[]" "[]"] p(2)
  have i: "fr_incidents res =
           map (report_of (sys_estimator sys)) (filter (is_severe (sys_estimator sys)) (fr_filtered_obstacles res))"
    "fr_events res = report_events (fr_incidents res)" by simp_all
  have "\<forall>b \<in> set (map det_bbox (fr_filtered_obstacles res)). 1000 \<le> bbox_area b"
    unfolding conjunct1[OF z] filter_alerts_fst using rejected_small[of _ 1000]
    by (auto simp: not_less[symmetric])
  then have a: "\<forall>ob \<in> set (fr_filtered_obstacles res). 1000 \<le> bbox_area (det_bbox ob)" by simp
  show ?thesis using i a by blast
qed

lemma classify_zones_total:
  assumes "frame_width ts = Some w" "frame_height ts = Some h" "w \<noteq> 0" "h \<noteq> 0"
  shows "\<exists>zs. classify_zones ts obs = Inr zs"
proof (induction obs)
  case Nil
  then show ?case by simp
next
  case (Cons ob obs)
  obtain x1 y1 x2 y2 where b: "det_bbox ob = (x1, y1, x2, y2)" by (cases "det_bbox ob") auto
  from Cons obtain zs where zs: "classify_zones ts obs = Inr zs" by blast
  show ?case
    using classify_zone_spec[OF assms, of x1 y1 x2 y2] b zs by simp
qed

lemma process_frame_total:
  assumes "tracker_inv (sys_tracker sys)" "mfc_inv (sys_mfc sys)"
    "0 \<le> min_consecutive_frames (sys_mfc sys) + max_frame_gap (sys_mfc sys)"
    "frame_ready sys shape"
  shows "\<exists>res sys'. process_frame sys shape dets now = Inr (res, sys') \<and>
           tracker_inv (sys_tracker sys') \<and> mfc_inv (sys_mfc sys') \<and>
           min_consecutive_frames (sys_mfc sys') + max_frame_gap (sys_mfc sys') =
             min_consecutive_frames (sys_mfc sys) + max_frame_gap (sys_mfc sys) \<and>
           frame_ready sys' shape'"
proof -
  let ?ts = "if frame_width (sys_track_segmentation sys) = None
             then initialize_frame_dimensions (sys_track_segmentation sys) shape
             else sys_track_segmentation sys"
  from assms(4) obtain w h where
    d: "frame_width ?ts = Some w" "frame_height ?ts = Some h" "w \<noteq> 0" "h \<noteq> 0"
    unfolding frame_ready_def Let_def by (auto split: option.splits)
  from tracker_step_ok[OF assms(1), of dets] obtain t' where
    t': "tracker_step (sys_tracker sys) dets = Inr t'" "step_post (sys_tracker sys) dets t'" by blast
  then have ti: "tracker_inv t'" unfolding step_post_def by blast
  have tu: "tracker_update (sys_tracker sys) dets = Inr (objects t', t')"
    using t'(1) by (simp add: tracker_update_def)
  have dk: "distinct (keys (objects t'))" using ti unfolding tracker_inv_def by blast
  from mfc_update_ok[OF assms(2,3) dk, of now dets] obtain conf m' where
    m': "mfc_update (sys_mfc sys) now dets (objects t') = Inr (conf, m')" "mfc_inv m'"
      "same_cfg (tick (sys_mfc sys)) m'" by blast
  obtain filtered supp where f: "filter_alerts 1000 conf (sys_suppressed_count sys) = (filtered, supp)"
    by (cases "filter_alerts 1000 conf (sys_suppressed_count sys)")
  from classify_zones_total[OF d, of filtered] obtain zs where
    zs: "classify_zones ?ts filtered = Inr zs" by blast
  note z = classify_zones_ok[OF zs]
  note a = assess_obstacles_ok[OF conjunct2[OF z], of "sys_estimator sys" "[]" "[]"]
  let ?incs = "[] @ map (report_of (sys_estimator sys)) (filter (is_severe (sys_estimator sys)) zs)"
  let ?evs = "[] @ report_events (map (report_of (sys_estimator sys)) (filter (is_severe (sys_estimator sys)) zs))"
  let ?res = "\<lparr>fr_detections = dets, fr_filtered_obstacles = zs,
               fr_incidents = ?incs, fr_events = ?evs\<rparr>"
  let ?sys' = "sys\<lparr>sys_track_segmentation := ?ts,
                      sys_tracker := t',
                      sys_mfc := m',
                      sys_suppressed_count := supp,
                      sys_frames_processed := sys_frames_processed sys + 1,
                      sys_detections_count := sys_detections_count sys + length dets,
                      sys_confirmed_obstacles := sys_confirmed_obstacles sys + length conf,
                      sys_alerts_sent := sys_alerts_sent sys + length ?incs\<rparr>"
  have run: "process_frame sys shape dets now = Inr (?res, ?sys')"
    unfolding process_frame_def Let_def tu using m'(1) f zs a by simp
  have cfg: "min_consecutive_frames m' + max_frame_gap m' =
             min_consecutive_frames (sys_mfc sys) + max_frame_gap (sys_mfc sys)"
    using m'(3) by (simp add: same_cfg_def tick_def)
  have fr: "frame_ready ?sys' shape'"
    using d by (auto simp: frame_ready_def Let_def)
  show ?thesis
    using run ti m'(2) cfg fr
    by (intro exI[of _ ?res] exI[of _ ?sys']) simp
qed

text \<open>
  C8. In per-frame processing an obstacle that passed confirmation and
  false-alert filtering gets an incident report, handed to the alert and log
  collaborators, exactly when its severity is critical or high; an obstacle of severity
  medium or low gets none.
\<close>

theorem C8_reports_for_critical_and_high:
  assumes "process_frame sys shape dets now = Inr (res, sys')"
  shows "fr_incidents res =
           map (report_of (sys_estimator sys))
               (filter (is_severe (sys_estimator sys)) (fr_filtered_obstacles res)) \<and>
         fr_events res = report_events (fr_incidents res) \<and>
         (\<forall>ob \<in> set (fr_filtered_obstacles res).
            report_of (sys_estimator sys) ob \<in> set (fr_incidents res) \<longleftrightarrow>
              severity_of (sys_estimator sys) ob = ''critical'' \<or>
              severity_of (sys_estimator sys) ob = ''high'') \<and>
         (\<forall>ob \<in> set (fr_filtered_obstacles res).
            severity_of (sys_estimator sys) ob = ''medium'' \<or>
            severity_of (sys_estimator sys) ob = ''low'' \<longrightarrow>
              report_of (sys_estimator sys) ob \<notin> set (fr_incidents res))"
proof -
  let ?est = "sys_estimator sys"
  note pi = process_frame_incidents[OF assms]
  have iff: "\<forall>ob \<in> set (fr_filtered_obstacles res).
            report_of ?est ob \<in> set (fr_incidents res) \<longleftrightarrow>
              severity_of ?est ob = ''critical'' \<or> severity_of ?est ob = ''high''"
  proof
    fix ob assume ob: "ob \<in> set (fr_filtered_obstacles res)"
    show "report_of ?est ob \<in> set (fr_incidents res) \<longleftrightarrow>
              severity_of ?est ob = ''critical'' \<or> severity_of ?est ob = ''high''"
    proof
      assume "report_of ?est ob \<in> set (fr_incidents res)"
      then obtain ob' where ob': "is_severe ?est ob'" "report_of ?est ob = report_of ?est ob'"
        using pi by auto
      from arg_cong[OF ob'(2), of rep_severity] have "severity_of ?est ob = severity_of ?est ob'"
        by (simp add: report_of_fields)
      with ob'(1) show "severity_of ?est ob = ''critical'' \<or> severity_of ?est ob = ''high''"
        by (simp add: is_severe_def)
    next
      assume "severity_of ?est ob = ''critical'' \<or> severity_of ?est ob = ''high''"
      then have "is_severe ?est ob" by (simp add: is_severe_def)
      with ob show "report_of ?est ob \<in> set (fr_incidents res)" using pi by auto
    qed
  qed
  have no: "\<forall>ob \<in> set (fr_filtered_obstacles res).
            severity_of ?est ob = ''medium'' \<or> severity_of ?est ob = ''low'' \<longrightarrow>
              report_of ?est ob \<notin> set (fr_incidents res)"
    using iff by auto
  show ?thesis using pi iff no by blast
qed

text \<open>
  C9. No detection is dropped before the tracker: per-frame processing hands the
  detector's whole list, degenerate boxes included, to the tracker's update, where a
  degenerate detection creates or updates a track like any other. Frame processing does
  not abort, whatever the boxes of the detections are. Every obstacle that reaches zone
  classification and every incident has a box of area (x2 - x1) * (y2 - y1) at least
  1000, so a detection whose box has no width or no height yields no incident.
\<close>

theorem C9_detections_reach_tracker_unfiltered:
  assumes "tracker_inv (sys_tracker sys)" "mfc_inv (sys_mfc sys)"
    "0 \<le> min_consecutive_frames (sys_mfc sys) + max_frame_gap (sys_mfc sys)"
    "frame_ready sys shape"
  shows "\<exists>res sys'. process_frame sys shape dets now = Inr (res, sys') \<and>
           tracker_update (sys_tracker sys) dets =
             Inr (objects (sys_tracker sys'), sys_tracker sys') \<and>
           (\<forall>ob \<in> set (fr_filtered_obstacles res). 1000 \<le> bbox_area (det_bbox ob)) \<and>
           (\<forall>r \<in> set (fr_incidents res). \<exists>b. rep_bbox r = Some b \<and> 1000 \<le> bbox_area b) \<and>
           (x2 = x1 \<or> y2 = y1 \<longrightarrow> bbox_area (x1, y1, x2, y2) = 0) \<and>
           tracker_inv (sys_tracker sys') \<and> mfc_inv (sys_mfc sys') \<and>
           0 \<le> min_consecutive_frames (sys_mfc sys') + max_frame_gap (sys_mfc sys') \<and>
           frame_ready sys' shape'"
proof -
  from process_frame_total[OF assms, of dets now shape'] obtain res sys' where
    e: "process_frame sys shape dets now = Inr (res, sys')"
      "tracker_inv (sys_tracker sys')" "mfc_inv (sys_mfc sys')"
      "min_consecutive_frames (sys_mfc sys') + max_frame_gap (sys_mfc sys') =
             min_consecutive_frames (sys_mfc sys) + max_frame_gap (sys_mfc sys)"
      "frame_ready sys' shape'" by blast
  from process_frame_parts[OF e(1)] obtain tracked where
    t: "tracker_update (sys_tracker sys) dets = Inr (tracked, sys_tracker sys')" by blast
  then have tr: "tracker_update (sys_tracker sys) dets =
           Inr (objects (sys_tracker sys'), sys_tracker sys')"
    by (auto simp: tracker_update_def split: sum.splits)
  note pi = process_frame_incidents[OF e(1)]
  have inc: "\<forall>r \<in> set (fr_incidents res). \<exists>b. rep_bbox r = Some b \<and> 1000 \<le> bbox_area b"
  proof
    fix r assume "r \<in> set (fr_incidents res)"
    then obtain ob where ob: "ob \<in> set (fr_filtered_obstacles res)"
      "r = report_of (sys_estimator sys) ob"
      using pi by auto
    then have "rep_bbox r = Some (det_bbox ob) \<and> 1000 \<le> bbox_area (det_bbox ob)"
      using pi by (simp add: report_of_fields)
    then show "\<exists>b. rep_bbox r = Some b \<and> 1000 \<le> bbox_area b" by blast
  qed
  have z: "x2 = x1 \<or> y2 = y1 \<longrightarrow> bbox_area (x1, y1, x2, y2) = 0"
    by (auto simp: bbox_area_def)
  have c: "0 \<le> min_consecutive_frames (sys_mfc sys') + max_frame_gap (sys_mfc sys')"
    using e(4) assms(3) by simp
  show ?thesis
    using e(1,2,3,5) tr pi inc z c by blast
qed

theorem C8_medium_without_report_counterexample:
  "run_summary new_system (five_frames animal_det) =
     Inr [([], 0, 0), ([], 0, 0), ([], 0, 0), ([], 0, 0), ([''medium''], 0, 0)]"
  by (simp add: run_summary_def frame_summary_def five_frames_def animal_det_def
      frame_eval tracker_eval mfc_eval)

theorem C8_reports_for_critical_and_high_witness:
  "\<exists>ress s4 res s5.
     process_frames new_system (take 4 (five_frames track_human_det)) = Inr (ress, s4) \<and>
     process_frame s4 (480, 640) [track_human_det] 5 = Inr (res, s5) \<and>
     map (severity_of (sys_estimator s4)) (fr_filtered_obstacles res) = [''critical''] \<and>
     map rep_severity (fr_incidents res) = [''critical''] \<and>
     fr_events res = report_events (fr_incidents res)"
proof -
  have "\<exists>ress s4 res s5.
     process_frames new_system (take 4 (five_frames track_human_det)) = Inr (ress, s4) \<and>
     process_frame s4 (480, 640) [track_human_det] 5 = Inr (res, s5) \<and>
     map (severity_of (sys_estimator s4)) (fr_filtered_obstacles res) = [''critical'']"
    by (simp add: five_frames_def track_human_det_def frame_eval tracker_eval mfc_eval)
  then obtain ress s4 res s5 where
    e: "process_frames new_system (take 4 (five_frames track_human_det)) = Inr (ress, s4)"
      "process_frame s4 (480, 640) [track_human_det] 5 = Inr (res, s5)"
      "map (severity_of (sys_estimator s4)) (fr_filtered_obstacles res) = [''critical'']"
    by (elim exE conjE)
  from e(3) obtain ob where ob: "fr_filtered_obstacles res = [ob]"
    "severity_of (sys_estimator s4) ob = ''critical''" by auto
  from C8_reports_for_critical_and_high[OF e(2)] ob
  have r: "map rep_severity (fr_incidents res) = [''critical''] \<and>
        fr_events res = report_events (fr_incidents res)"
    by (simp add: is_severe_def report_of_fields)
  show ?thesis
    by (rule exI[of _ ress], rule exI[of _ s4], rule exI[of _ res], rule exI[of _ s5])
       (intro conjI e conjunct1[OF r] conjunct2[OF r])
qed

theorem C9_degenerate_box_tracked_counterexample:
  "tracked_after new_system (480, 640) [degenerate_det] 1 = Inr [(0, degenerate_det)]"
  by (simp add: tracked_after_def degenerate_det_def frame_eval tracker_eval mfc_eval)

theorem C9_detections_reach_tracker_unfiltered_witness:
  "tracker_inv (sys_tracker new_system) \<and> mfc_inv (sys_mfc new_system) \<and>
   0 \<le> min_consecutive_frames (sys_mfc new_system) + max_frame_gap (sys_mfc new_system) \<and>
   frame_ready new_system (480, 640) \<and>
   (\<exists>res sys'. process_frame new_system (480, 640) [degenerate_det] 1 = Inr (res, sys') \<and>
      tracker_update (sys_tracker new_system) [degenerate_det] =
        Inr (objects (sys_tracker sys'), sys_tracker sys') \<and>
      (\<forall>r \<in> set (fr_incidents res). \<exists>b. rep_bbox r = Some b \<and> 1000 \<le> bbox_area b))"
proof -
  have h: "tracker_inv (sys_tracker new_system)" "mfc_inv (sys_mfc new_system)"
    "0 \<le> min_consecutive_frames (sys_mfc new_system) + max_frame_gap (sys_mfc new_system)"
    "frame_ready new_system (480, 640)"
    by (simp_all add: new_system_def tracker_inv_def new_tracker_def mfc_inv_def new_mfc_def
        keys_def frame_ready_def default_track_segmentation_def initialize_frame_dimensions_def)
  from C9_detections_reach_tracker_unfiltered[OF h, of "[degenerate_det]" 1]
  have "\<exists>res sys'. process_frame new_system (480, 640) [degenerate_det] 1 = Inr (res, sys') \<and>
      tracker_update (sys_tracker new_system) [degenerate_det] =
        Inr (objects (sys_tracker sys'), sys_tracker sys') \<and>
      (\<forall>r \<in> set (fr_incidents res). \<exists>b. rep_bbox r = Some b \<and> 1000 \<le> bbox_area b)"
    by blast
  with h show ?thesis by blast
qed

end
